theory Spec2Isabelle
  imports Main
begin

section \<open>C strings, the allocator and the process environment\<close>

text \<open>
  A C string is modelled by the list of its bytes before the terminating NUL, so
  \<open>strlen\<close> is \<open>length\<close> and the empty string is \<open>[]\<close>. Sizes (\<open>size_t\<close>, and the
  \<open>int\<close> counters of \<open>get_env\<close>) are natural numbers: the model covers strings whose
  lengths fit the machine type, which every line buffer of \<open>LINE_MAX\<close> bytes does.

  A buffer filled by \<open>fgets\<close> may hold NUL bytes read from a file or from standard
  input; \<open>strlen\<close>, \<open>strncpy\<close> and \<open>strchr\<close> see such a buffer up to its first NUL
  (\<open>cstr\<close>).

  \<open>malloc\<close> and \<open>realloc\<close> may fail. The model takes the allocator as a parameter
  \<open>M\<close>: \<open>M n\<close> tells whether a request for \<open>n\<close> bytes is granted.

  The process environment is the array \<open>environ\<close> of the C library: a list of
  entries of the form \<open>NAME=VALUE\<close>.
\<close>

type_synonym allocator = "nat \<Rightarrow> bool"

type_synonym environ = "string list"

definition cstr :: "string \<Rightarrow> string" where
  "cstr buf = takeWhile (\<lambda>c. c \<noteq> CHR 0x00) buf"

definition LINE_MAX :: nat where
  "LINE_MAX = 4096"

text \<open>\<open>isspace\<close> in the C locale (the program never calls \<open>setlocale\<close>):
  space, \<open>\t\<close>, \<open>\n\<close>, \<open>\v\<close>, \<open>\f\<close>, \<open>\r\<close>.\<close>

definition isspace :: "char \<Rightarrow> bool" where
  "isspace c \<longleftrightarrow>
     c = CHR '' '' \<or> c = CHR 0x09 \<or> c = CHR 0x0A \<or> c = CHR 0x0B \<or> c = CHR 0x0C \<or> c = CHR 0x0D"

text \<open>
  \<open>getenv\<close> as the GNU C library has it: no result for the empty name; otherwise the
  first entry that begins with the bytes of the name followed by \<open>=\<close> is found, and the
  result is what follows that \<open>=\<close>. The name is compared as text, so a name with \<open>=\<close>
  in it finds an entry too: \<open>A=B\<close> finds \<open>A=B=c\<close> and gives \<open>c\<close>.
\<close>

definition entry_matches :: "string \<Rightarrow> string \<Rightarrow> bool" where
  "entry_matches name ep \<longleftrightarrow> take (length name + 1) ep = name @ ''=''"

definition getenv :: "environ \<Rightarrow> string \<Rightarrow> string option" where
  "getenv env name =
     (if name = [] then None
      else (case find (entry_matches name) env of
              None \<Rightarrow> None
            | Some ep \<Rightarrow> Some (drop (length name + 1) ep)))"

text \<open>
  \<open>setenv\<close> with \<open>replace = 1\<close>, once the name has been accepted: the new entry takes
  the place of the first entry of that name, or goes to the end when there is none.
\<close>

fun put_entry :: "string \<Rightarrow> string \<Rightarrow> environ \<Rightarrow> environ" where
  "put_entry name np [] = [np]"
| "put_entry name np (ep # env) =
     (if entry_matches name ep then np # env else ep # put_entry name np env)"

text \<open>\<open>xstrdup\<close>: \<open>malloc (strlen s + 1)\<close>, then a copy; \<open>None\<close> is the NULL result.\<close>

definition xstrdup :: "allocator \<Rightarrow> string \<Rightarrow> string option" where
  "xstrdup M s = (if M (length s + 1) then Some s else None)"

text \<open>
  The loop \<open>while (end > start && isspace(*end)) end--;\<close> followed by
  \<open>*(end + 1) = '\0'\<close>, with \<open>end\<close> starting at the last byte: it never moves before
  the first byte.
\<close>

function strip_end :: "string \<Rightarrow> string" where
  "strip_end s = (if 1 < length s \<and> isspace (last s) then strip_end (butlast s) else s)"
  by pat_completeness auto
termination
  by (relation "measure length") auto

declare strip_end.simps [simp del]

definition trim_inplace :: "string \<Rightarrow> string" where
  "trim_inplace s =
     (let start = dropWhile isspace s
      in if start = [] then [] else strip_end start)"

section \<open>The variable expander\<close>

text \<open>
  \<open>expand_vars\<close>: the state of the \<open>while (*p)\<close> loop is the unread input \<open>p\<close>, the
  output written so far and the capacity \<open>out_cap\<close> of its buffer. A \<open>${\<close> opens a
  reference when a \<open>}\<close> follows somewhere; the name is copied (one allocation), looked
  up, and the value appended, the buffer growing to \<open>need * 2\<close> when it is too small.
  Otherwise one byte is copied, the buffer growing to \<open>(out_cap + 64) * 2\<close>.
\<close>

function expand_loop ::
  "allocator \<Rightarrow> environ \<Rightarrow> string \<Rightarrow> string \<Rightarrow> nat \<Rightarrow> string option" where
  "expand_loop M env p out out_cap =
     (if p = [] then Some out
      else if take 2 p = ''${'' \<and> CHR ''}'' \<in> set (drop 2 p) then
        (let name = takeWhile (\<lambda>c. c \<noteq> CHR ''}'') (drop 2 p);
             q = dropWhile (\<lambda>c. c \<noteq> CHR ''}'') (drop 2 p)
         in if \<not> M (length name + 1) then None
            else
              (let val = (case getenv env name of None \<Rightarrow> [] | Some v \<Rightarrow> v);
                   need = length out + length val + 1
               in if need > out_cap
                  then (if \<not> M (need * 2) then None
                        else expand_loop M env (tl q) (out @ val) (need * 2))
                  else expand_loop M env (tl q) (out @ val) out_cap))
      else if length out + 2 > out_cap
        then (if \<not> M ((out_cap + 64) * 2) then None
              else expand_loop M env (tl p) (out @ [hd p]) ((out_cap + 64) * 2))
        else expand_loop M env (tl p) (out @ [hd p]) out_cap)"
  by pat_completeness auto
termination
proof -
  have aux: "length (dropWhile P (drop 2 p)) - Suc 0 < length p" if "p \<noteq> []"
    for p :: string and P
  proof -
    have "length (dropWhile P (drop 2 p)) \<le> length (drop 2 p)"
      by (rule length_dropWhile_le)
    with that show ?thesis by (cases p) auto
  qed
  show ?thesis
    by (relation "measure (\<lambda>(M, env, p, out, out_cap). length p)") (simp_all add: aux)
qed

declare expand_loop.simps [simp del]

definition expand_vars :: "allocator \<Rightarrow> environ \<Rightarrow> string \<Rightarrow> string option" where
  "expand_vars M env inp =
     (if \<not> M (length inp + 1) then None
      else expand_loop M env inp [] (length inp + 1))"

section \<open>The value parser\<close>

text \<open>
  The quoted branch of \<open>parse_value\<close>: \<open>while (*p && *p != quote && idx < LINE_MAX - 1)\<close>,
  where a backslash followed by a byte stores that byte, and anything else is stored
  as it is. \<open>buf\<close> holds the \<open>idx\<close> bytes stored so far.
\<close>

function quoted_loop :: "char \<Rightarrow> string \<Rightarrow> string \<Rightarrow> string" where
  "quoted_loop quote p buf =
     (case p of
        [] \<Rightarrow> buf
      | c # cs \<Rightarrow>
          if c \<noteq> quote \<and> length buf < LINE_MAX - 1 then
            (if c = CHR 0x5C \<and> cs \<noteq> [] then quoted_loop quote (tl cs) (buf @ [hd cs])
             else quoted_loop quote cs (buf @ [c]))
          else buf)"
  by pat_completeness auto
termination
  by (relation "measure (\<lambda>(quote, p, buf). length p)") auto

declare quoted_loop.simps [simp del]

text \<open>The unquoted branch: \<open>while (*p && idx < LINE_MAX - 1)\<close>, leaving at a \<open>#\<close>.\<close>

function unquoted_loop :: "string \<Rightarrow> string \<Rightarrow> string" where
  "unquoted_loop p tmp =
     (case p of
        [] \<Rightarrow> tmp
      | c # cs \<Rightarrow>
          if length tmp < LINE_MAX - 1 then
            (if c = CHR ''#'' then tmp else unquoted_loop cs (tmp @ [c]))
          else tmp)"
  by pat_completeness auto
termination
  by (relation "measure (\<lambda>(p, tmp). length p)") auto

declare unquoted_loop.simps [simp del]

text \<open>\<open>while (idx > 0 && isspace(tmp[idx - 1])) idx--;\<close> then \<open>tmp[idx] = '\0'\<close>.\<close>

function trim_trailing :: "string \<Rightarrow> string" where
  "trim_trailing tmp =
     (if tmp \<noteq> [] \<and> isspace (last tmp) then trim_trailing (butlast tmp) else tmp)"
  by pat_completeness auto
termination
  by (relation "measure length") auto

declare trim_trailing.simps [simp del]

definition parse_value :: "allocator \<Rightarrow> string \<Rightarrow> string option" where
  "parse_value M raw =
     (case dropWhile isspace raw of
        [] \<Rightarrow> xstrdup M []
      | c # cs \<Rightarrow>
          if c = CHR 0x22 \<or> c = CHR 0x27 then xstrdup M (quoted_loop c cs [])
          else xstrdup M (dropWhile isspace (trim_trailing (unquoted_loop (c # cs) []))))"

section \<open>The delimiter splitter\<close>

text \<open>
  A slot of the \<open>char **\<close> array returned by \<open>get_env\<close>: not yet written (\<open>malloc\<close> and
  \<open>realloc\<close> do not initialise), the NULL pointer, or a pointer to an owned string.
\<close>

datatype cell = Uninit | Null | Ptr string

definition sizeof_ptr :: nat where
  "sizeof_ptr = 8"

definition trim_string_copy :: "allocator \<Rightarrow> string \<Rightarrow> string option" where
  "trim_string_copy M start =
     (case xstrdup M (dropWhile isspace start) of
        None \<Rightarrow> None
      | Some copy \<Rightarrow> Some (strip_end copy))"

text \<open>
  \<open>strtok\<close> on the unread rest of \<open>work_str\<close>: skip the bytes that are in \<open>delim\<close>;
  at the end there is no token; otherwise the token runs to the next delimiter byte,
  which is overwritten, and the scan resumes after it.
\<close>

definition strtok :: "string \<Rightarrow> string \<Rightarrow> (string \<times> string) option" where
  "strtok s delim =
     (case dropWhile (\<lambda>c. c \<in> set delim) s of
        [] \<Rightarrow> None
      | c # cs \<Rightarrow>
          Some (takeWhile (\<lambda>c. c \<notin> set delim) (c # cs),
                drop 1 (dropWhile (\<lambda>c. c \<notin> set delim) (c # cs))))"

text \<open>
  The \<open>while (token)\<close> loop of \<open>get_env\<close>. \<open>rest\<close> is what \<open>strtok\<close> has not read,
  \<open>result\<close> the array (\<open>capacity\<close> slots) and \<open>count\<close> the number of tokens stored.
  A token whose trimmed copy is empty, or could not be allocated, is passed over.
\<close>

function split_loop ::
  "allocator \<Rightarrow> string \<Rightarrow> string \<Rightarrow> cell list \<Rightarrow> nat \<Rightarrow> nat \<Rightarrow> (cell list \<times> nat) option" where
  "split_loop M delim rest result capacity count =
     (case strtok rest delim of
        None \<Rightarrow> Some (result[count := Null], count)
      | Some (token, rest') \<Rightarrow>
          (case trim_string_copy M token of
             None \<Rightarrow> split_loop M delim rest' result capacity count
           | Some clean_token \<Rightarrow>
               if clean_token \<noteq> [] then
                 (if count \<ge> capacity - 1 then
                    (if \<not> M (sizeof_ptr * (capacity * 2)) then None
                     else split_loop M delim rest'
                            ((result @ replicate capacity Uninit)[count := Ptr clean_token])
                            (capacity * 2) (count + 1))
                  else split_loop M delim rest' (result[count := Ptr clean_token])
                         capacity (count + 1))
               else split_loop M delim rest' result capacity count))"
  by pat_completeness auto
termination
proof -
  have aux: "length rest' < length rest" if "strtok rest delim = Some (token, rest')"
    for rest delim token rest'
  proof -
    define d where "d = dropWhile (\<lambda>c. c \<in> set delim) rest"
    from that have d: "d \<noteq> []" and r: "rest' = drop 1 (dropWhile (\<lambda>c. c \<notin> set delim) d)"
      unfolding strtok_def d_def
      by (auto split: list.splits simp del: dropWhile.simps takeWhile.simps dropWhile_eq_Nil_conv)
    have "length d \<le> length rest"
      unfolding d_def by (rule length_dropWhile_le)
    moreover have "length (dropWhile (\<lambda>c. c \<notin> set delim) d) \<le> length d"
      by (rule length_dropWhile_le)
    ultimately show ?thesis
      using d unfolding r by (cases d) auto
  qed
  show ?thesis
    by (relation "measure (\<lambda>(M, delim, rest, result, capacity, count). length rest)")
      (auto dest: aux)
qed

declare split_loop.simps [simp del]

text \<open>
  \<open>get_env\<close> returns the array (\<open>None\<close> for NULL) and the value it leaves in
  \<open>*count_out\<close>; \<open>delim\<close> is \<open>None\<close> for a NULL delimiter.
\<close>

definition get_env :: "allocator \<Rightarrow> environ \<Rightarrow> string \<Rightarrow> string option \<Rightarrow> cell list option \<times> int" where
  "get_env M env key delim =
     (case getenv env key of
        None \<Rightarrow> (None, 0)
      | Some raw_val \<Rightarrow>
          if length raw_val = 0 then (None, 0)
          else if delim = None \<or> delim = Some [] then
            (if \<not> M (sizeof_ptr * 2) then (None, 0)
             else (case trim_string_copy M raw_val of
                     None \<Rightarrow> (None, 0)
                   | Some r0 \<Rightarrow> (Some [Ptr r0, Null], 1)))
          else
            (case xstrdup M raw_val of
               None \<Rightarrow> (None, 0)
             | Some work_str \<Rightarrow>
                 if \<not> M (sizeof_ptr * 10) then (None, 0)
                 else (case split_loop M (the delim) work_str (replicate 10 Uninit) 10 0 of
                         None \<Rightarrow> (None, 0)
                       | Some (result, count) \<Rightarrow> (Some result, int count))))"

section \<open>Files, standard input and the loader\<close>

text \<open>
  \<open>fgets (buf, n, stream)\<close> on the unread bytes of a stream: at end of input there
  is no line; otherwise at most \<open>n - 1\<close> bytes are taken, ending after the first
  newline when there is one among them. The result is the line and what stays unread.
\<close>

definition fgets :: "nat \<Rightarrow> string \<Rightarrow> (string \<times> string) option" where
  "fgets n stream =
     (if stream = [] then None
      else
        (let chunk = take (n - 1) stream;
             pre = takeWhile (\<lambda>c. c \<noteq> CHR 0x0A) chunk;
             line = (if length pre < length chunk then pre @ [CHR 0x0A] else chunk)
         in Some (line, drop (length line) stream)))"

text \<open>The lines that \<open>while (fgets(line, sizeof(line), f))\<close> sees, in order.\<close>

function file_lines :: "string \<Rightarrow> string list" where
  "file_lines stream =
     (case fgets LINE_MAX stream of
        None \<Rightarrow> []
      | Some (line, rest) \<Rightarrow> line # file_lines rest)"
  by pat_completeness auto
termination
  by (relation "measure length")
    (auto simp: fgets_def LINE_MAX_def Let_def split: if_splits)

declare file_lines.simps [simp del]

text \<open>\<open>while (l > 0 && (s[l - 1] == '\n' || s[l - 1] == '\r')) s[--l] = '\0';\<close>\<close>

function strip_newlines :: "string \<Rightarrow> string" where
  "strip_newlines s =
     (if s \<noteq> [] \<and> (last s = CHR 0x0A \<or> last s = CHR 0x0D) then strip_newlines (butlast s)
      else s)"
  by pat_completeness auto
termination
  by (relation "measure length") auto

declare strip_newlines.simps [simp del]

text \<open>
  The operating system as far as the loader depends on it: the allocator, whether
  \<open>setenv\<close> finds memory for a pair, whether the file can be opened for appending,
  whether \<open>fprintf\<close> of a given text to the stream reports success (it fills the
  buffer of the stream), whether \<open>fflush\<close> then gets that text into the file, and
  whether standard input is a terminal. A write either puts the whole text into the
  file or none of it. When \<open>fflush\<close> fails the C library drops what the buffer held,
  so the text is lost and \<open>fclose\<close> has nothing left to write.
\<close>

record os =
  malloc_ok :: allocator
  setenv_ok :: "string \<Rightarrow> string \<Rightarrow> bool"
  fopen_append_ok :: bool
  fprintf_ok :: "string \<Rightarrow> bool"
  fflush_ok :: "string \<Rightarrow> bool"
  isatty_stdin :: bool

text \<open>
  \<open>set_env_var\<close> is \<open>setenv (key, value, 1)\<close>: it refuses an empty name and a name
  with \<open>=\<close> in it, and may run out of memory; otherwise the entry \<open>key=value\<close> is put
  into the environment. The result is the new environment and the return code.
\<close>

definition set_env_var :: "os \<Rightarrow> environ \<Rightarrow> string \<Rightarrow> string \<Rightarrow> environ \<times> int" where
  "set_env_var sys env key val =
     (if key = [] \<or> CHR ''='' \<in> set key \<or> \<not> setenv_ok sys key val then (env, - 1)
      else (put_entry key (key @ ''='' @ val) env, 0))"

text \<open>What the program prints; \<open>WarnLine\<close> and \<open>ErrWrite\<close> go to standard error.\<close>

datatype message =
    EnterPairs
  | Prompt
  | InvalidFormat
  | KeyEmpty
  | KeyTooLong
  | KeyEmptyAfterTrim
  | WarnSetFailed string
  | WarnLine string int
  | NoFileFound string
  | NoneSet string
  | AskCreate string
  | ErrWrite string
  | NoEntriesAdded
  | Added int string

text \<open>
  The first half of the body of the loop of \<open>load_dotenv\<close>: from a line to its key
  and raw value, or nothing when the line is passed over (blank, comment, no \<open>=\<close>,
  empty key). \<open>strncpy\<close> copies the line up to its first NUL.
\<close>

definition split_line :: "string \<Rightarrow> (string \<times> string) option" where
  "split_line line =
     (let buf = take (LINE_MAX - 1) (cstr line);
          s0 = trim_inplace buf
      in if s0 = [] then None
         else if hd s0 = CHR ''#'' then None
         else
           (let s = (if take 7 s0 = ''export '' then drop 7 s0 else s0)
            in if CHR ''='' \<notin> set s then None
               else
                 (let eq = length (takeWhile (\<lambda>c. c \<noteq> CHR ''='') s);
                      keylen = (if eq \<ge> LINE_MAX then LINE_MAX - 1 else eq);
                      keybuf = trim_inplace (take keylen s)
                  in if keybuf = [] then None
                     else Some (keybuf, strip_newlines (drop (eq + 1) s)))))"

text \<open>
  The loop of \<open>load_dotenv\<close> over the lines of the file. It returns the status (\<open>0\<close>
  when the file was read to its end, \<open>-2\<close> or \<open>-3\<close> when the function returned from
  inside the loop), \<open>vars_set\<close>, the environment and what was printed.
\<close>

fun load_lines ::
  "os \<Rightarrow> string list \<Rightarrow> int \<Rightarrow> int \<Rightarrow> environ \<Rightarrow> message list
     \<Rightarrow> int \<times> int \<times> environ \<times> message list" where
  "load_lines sys [] lineno vars_set env pr = (0, vars_set, env, pr)"
| "load_lines sys (line # rest) lineno vars_set env pr =
     (case split_line line of
        None \<Rightarrow> load_lines sys rest (lineno + 1) vars_set env pr
      | Some (keybuf, val_raw) \<Rightarrow>
          (case parse_value (malloc_ok sys) val_raw of
             None \<Rightarrow> (- 2, vars_set, env, pr)
           | Some val_parsed \<Rightarrow>
               (case expand_vars (malloc_ok sys) env val_parsed of
                  None \<Rightarrow> (- 3, vars_set, env, pr)
                | Some val_expanded \<Rightarrow>
                    (case set_env_var sys env keybuf val_expanded of
                       (env', rc) \<Rightarrow>
                         if rc = 0 then load_lines sys rest (lineno + 1) (vars_set + 1) env' pr
                         else load_lines sys rest (lineno + 1) vars_set env'
                                (pr @ [WarnLine keybuf (lineno + 1)])))))"

text \<open>
  The \<open>for (;;)\<close> loop of \<open>interactive_create_entries\<close>, on the unread standard input
  \<open>inp\<close>, the contents \<open>fw\<close> of the file opened for appending, the environment and what
  was printed. It returns \<open>added\<close>, or \<open>-1\<close> when \<open>fprintf\<close> reported a failure. The
  results of \<open>fflush\<close> and of \<open>fclose\<close> are not looked at: when the flush fails the
  line is not in the file and the loop goes on as if it were.
\<close>

function interactive_loop ::
  "os \<Rightarrow> string \<Rightarrow> string \<Rightarrow> environ \<Rightarrow> message list \<Rightarrow> int
     \<Rightarrow> int \<times> string \<times> string \<times> environ \<times> message list" where
  "interactive_loop sys inp fw env pr added =
     (case fgets LINE_MAX inp of
        None \<Rightarrow> (added, inp, fw, env, pr @ [Prompt])
      | Some (line0, inp') \<Rightarrow>
          (let line = strip_newlines (cstr line0);
               tmp = trim_inplace (take (LINE_MAX - 1) line);
               pr1 = pr @ [Prompt]
           in if tmp = [] then (added, inp', fw, env, pr1)
              else if CHR ''='' \<notin> set tmp
                then interactive_loop sys inp' fw env (pr1 @ [InvalidFormat]) added
              else
                (let keylen = length (takeWhile (\<lambda>c. c \<noteq> CHR ''='') tmp)
                 in if keylen = 0
                      then interactive_loop sys inp' fw env (pr1 @ [KeyEmpty]) added
                    else if keylen \<ge> LINE_MAX
                      then interactive_loop sys inp' fw env (pr1 @ [KeyTooLong]) added
                    else
                      (let keybuf = trim_inplace (take keylen tmp)
                       in if keybuf = []
                            then interactive_loop sys inp' fw env (pr1 @ [KeyEmptyAfterTrim]) added
                          else
                            (let val = drop (keylen + 1) tmp
                             in if \<not> fprintf_ok sys (tmp @ [CHR 0x0A])
                                  then (- 1, inp', fw, env, pr1)
                                else
                                  (let fw' = (if fflush_ok sys (tmp @ [CHR 0x0A])
                                              then fw @ tmp @ [CHR 0x0A] else fw)
                                   in case set_env_var sys env keybuf val of
                                        (env', rc) \<Rightarrow>
                                          if rc \<noteq> 0
                                            then interactive_loop sys inp' fw' env'
                                                   (pr1 @ [WarnSetFailed keybuf]) added
                                            else interactive_loop sys inp' fw' env'
                                                   pr1 (added + 1)))))))"
  by pat_completeness auto
termination
proof -
  have aux: "length inp' < length inp" if "fgets LINE_MAX inp = Some (line0, inp')"
    for inp line0 inp'
    using that by (auto simp: fgets_def LINE_MAX_def Let_def split: if_splits)
  show ?thesis
    by (relation "measure (\<lambda>(sys, inp, fw, env, pr, added). length inp)") (auto dest: aux)
qed

declare interactive_loop.simps [simp del]

text \<open>
  The state the loader works on: the process environment, the contents of the file
  named by \<open>filename\<close> (\<open>None\<close> when \<open>fopen (filename, "r")\<close> fails), the unread
  standard input, and what has been printed.
\<close>

record world =
  w_env :: environ
  w_file :: "string option"
  w_stdin :: string
  w_printed :: "message list"

definition interactive_create_entries :: "os \<Rightarrow> world \<Rightarrow> int \<times> world" where
  "interactive_create_entries sys w =
     (if \<not> fopen_append_ok sys then (- 1, w)
      else
        (case interactive_loop sys (w_stdin w) (case w_file w of None \<Rightarrow> [] | Some c \<Rightarrow> c)
                (w_env w) (w_printed w @ [EnterPairs]) 0 of
           (added, inp, fw, env', pr) \<Rightarrow>
             (added, w\<lparr>w_env := env', w_file := Some fw, w_stdin := inp, w_printed := pr\<rparr>)))"

text \<open>The block \<open>if (f) { ... }\<close> of \<open>load_dotenv\<close>: status, \<open>vars_set\<close> and the world.\<close>

definition read_file :: "os \<Rightarrow> world \<Rightarrow> int \<times> int \<times> world" where
  "read_file sys w =
     (case w_file w of
        None \<Rightarrow> (0, 0, w)
      | Some content \<Rightarrow>
          (case load_lines sys (file_lines content) 0 0 (w_env w) (w_printed w) of
             (status, vars_set, env', pr) \<Rightarrow> (status, vars_set, w\<lparr>w_env := env', w_printed := pr\<rparr>)))"

definition load_dotenv :: "os \<Rightarrow> string \<Rightarrow> world \<Rightarrow> int \<times> world" where
  "load_dotenv sys filename w =
     (let file_missing = (w_file w = None)
      in case read_file sys w of
           (status, vars_set, w1) \<Rightarrow>
             if status \<noteq> 0 then (status, w1)
             else if vars_set = 0 \<and> isatty_stdin sys then
               (let w2 = w1\<lparr>w_printed := w_printed w1 @
                            [if file_missing then NoFileFound filename else NoneSet filename,
                             AskCreate filename]\<rparr>
                in case fgets 8 (w_stdin w2) of
                     None \<Rightarrow> (0, w2)
                   | Some (answer, inp) \<Rightarrow>
                       if take 1 answer = ''y'' \<or> take 1 answer = ''Y'' then
                         (case interactive_create_entries sys (w2\<lparr>w_stdin := inp\<rparr>) of
                            (added, w3) \<Rightarrow>
                              if added < 0
                                then (- 4, w3\<lparr>w_printed := w_printed w3 @ [ErrWrite filename]\<rparr>)
                              else if added = 0
                                then (0, w3\<lparr>w_printed := w_printed w3 @ [NoEntriesAdded]\<rparr>)
                              else (0, w3\<lparr>w_printed := w_printed w3 @ [Added added filename]\<rparr>))
                       else (0, w2\<lparr>w_stdin := inp\<rparr>))
             else (0, w1))"

section \<open>What the specification says, as functions\<close>

text \<open>
  The definitions of this section follow the words of the specification, not the code;
  the theorems below compare the two.

  Trimming removes the whitespace at both ends.
\<close>

definition trim_spec :: "string \<Rightarrow> string" where
  "trim_spec s = rev (dropWhile isspace (rev (dropWhile isspace s)))"

text \<open>
  The store as the specification has it, a mapping from names to values with at most
  one value for a name: the name of an entry is its text before the first \<open>=\<close>, its
  value the text after it, and the first entry of a name gives the value of the name.
\<close>

definition entry_name :: "string \<Rightarrow> string" where
  "entry_name ep = takeWhile (\<lambda>c. c \<noteq> CHR ''='') ep"

definition store_value :: "environ \<Rightarrow> string \<Rightarrow> string option" where
  "store_value env name =
     (case find (\<lambda>ep. CHR ''='' \<in> set ep \<and> entry_name ep = name) env of
        None \<Rightarrow> None
      | Some ep \<Rightarrow> Some (drop (length name + 1) ep))"

text \<open>
  Expansion, one pass from left to right, with \<open>look\<close> giving the value of a name: at
  a \<open>${\<close> with a \<open>}\<close> somewhere after it, the name between them is replaced by its
  value (nothing when it has none) and the scan goes on after the \<open>}\<close>; every other
  byte is copied.
\<close>

fun split_at_close :: "string \<Rightarrow> (string \<times> string) option" where
  "split_at_close [] = None"
| "split_at_close (c # cs) =
     (if c = CHR ''}'' then Some ([], cs)
      else (case split_at_close cs of None \<Rightarrow> None | Some (name, rest) \<Rightarrow> Some (c # name, rest)))"

function expand_spec :: "(string \<Rightarrow> string option) \<Rightarrow> string \<Rightarrow> string" where
  "expand_spec look [] = []"
| "expand_spec look [c] = [c]"
| "expand_spec look (c # d # cs) =
     (if c = CHR ''$'' \<and> d = CHR ''{'' then
        (case split_at_close cs of
           Some (name, rest) \<Rightarrow>
             (case look name of None \<Rightarrow> [] | Some v \<Rightarrow> v) @ expand_spec look rest
         | None \<Rightarrow> c # expand_spec look (d # cs))
      else c # expand_spec look (d # cs))"
  by pat_completeness auto
termination
proof -
  have aux: "length rest < length cs" if "split_at_close cs = Some (name, rest)"
    for cs name rest
    using that by (induction cs arbitrary: name rest) (auto split: if_splits option.splits)
  show ?thesis
    by (relation "measure (\<lambda>(look, s). length s)") (auto dest: aux)
qed

text \<open>
  The text between an opening quote \<open>Q\<close> and the next \<open>Q\<close> that no backslash
  precedes, each backslash and the byte after it replaced by that byte.
\<close>

fun quoted_literal :: "char \<Rightarrow> string \<Rightarrow> string" where
  "quoted_literal Q [] = []"
| "quoted_literal Q [c] = (if c = Q then [] else [c])"
| "quoted_literal Q (c # d # cs) =
     (if c = Q then []
      else if c = CHR 0x5C then d # quoted_literal Q cs
      else c # quoted_literal Q (d # cs))"

text \<open>
  Splitting at every byte that occurs in \<open>delim\<close> (so \<open>n\<close> delimiter bytes give
  \<open>n + 1\<close> partitions, some of them empty), then trimming each partition and leaving
  out the ones that are empty after it.
\<close>

fun partitions :: "string \<Rightarrow> string \<Rightarrow> string list" where
  "partitions delim [] = [[]]"
| "partitions delim (c # cs) =
     (if c \<in> set delim then [] # partitions delim cs
      else (case partitions delim cs of [] \<Rightarrow> [[c]] | p # ps \<Rightarrow> (c # p) # ps))"

definition split_spec :: "string \<Rightarrow> string \<Rightarrow> string list" where
  "split_spec delim v = filter (\<lambda>t. t \<noteq> []) (map trim_spec (partitions delim v))"

section \<open>Concrete systems and inputs\<close>

text \<open>
  An allocator that grants every request; a system where nothing fails and standard
  input is a terminal, and the same with standard input not a terminal; the empty
  environment; and a world with a given file and a given standard input.
\<close>

definition grant :: allocator where
  "grant n = True"

definition sys_tty :: os where
  "sys_tty = \<lparr>malloc_ok = grant, setenv_ok = (\<lambda>key val. True), fopen_append_ok = True,
     fprintf_ok = (\<lambda>text. True), fflush_ok = (\<lambda>text. True), isatty_stdin = True\<rparr>"

definition sys_pipe :: os where
  "sys_pipe = sys_tty\<lparr>isatty_stdin := False\<rparr>"

text \<open>
  The system \<open>sys_tty\<close> with the file on a device that takes no data: \<open>fprintf\<close> fills
  the buffer of the stream and every write of the buffer to the file fails.
\<close>

definition sys_full :: os where
  "sys_full = sys_tty\<lparr>fflush_ok := (\<lambda>text. False)\<rparr>"

definition no_env :: environ where
  "no_env = []"

definition world0 :: "string option \<Rightarrow> string \<Rightarrow> world" where
  "world0 f inp = \<lparr>w_env = no_env, w_file = f, w_stdin = inp, w_printed = []\<rparr>"

text \<open>Allocators that refuse exactly one size.\<close>

definition refuse :: "nat \<Rightarrow> allocator" where
  "refuse k n = (n \<noteq> k)"

section \<open>The entries of a file and their references\<close>

text \<open>The entries of the environment that \<open>getenv\<close> and \<open>setenv\<close> match with a name.\<close>

definition entries_of :: "string \<Rightarrow> environ \<Rightarrow> environ" where
  "entries_of name env = filter (entry_matches name) env"

text \<open>
  Two entries may stand in the same place of two environments when they are the same
  or are entries of the same name.
\<close>

definition same_slot :: "string \<Rightarrow> string \<Rightarrow> bool" where
  "same_slot x y \<longleftrightarrow>
     x = y \<or> (\<exists>k. CHR ''='' \<notin> set k \<and> entry_matches k x \<and> entry_matches k y)"

text \<open>
  The names that a single pass over a value looks up, in order: the text between each
  \<open>${\<close> and the next \<open>}\<close>, the scan going on after that \<open>}\<close>.
\<close>

function ref_names :: "string \<Rightarrow> string list" where
  "ref_names [] = []"
| "ref_names [c] = []"
| "ref_names (c # d # cs) =
     (if c = CHR ''$'' \<and> d = CHR ''{'' then
        (case split_at_close cs of
           Some (name, rest) \<Rightarrow> name # ref_names rest
         | None \<Rightarrow> ref_names (d # cs))
      else ref_names (d # cs))"
  by pat_completeness auto
termination
proof -
  have aux: "length rest < length cs" if "split_at_close cs = Some (name, rest)"
    for cs name rest
    using that by (induction cs arbitrary: name rest) (auto split: if_splits option.splits)
  show ?thesis
    by (relation "measure length") (auto dest: aux)
qed

text \<open>
  The entries of a file: for each line that is not passed over, its key and its parsed
  value, before expansion. Installing them in order puts, for each, the entry of the
  key with the expansion of the value in the environment as it is then.
\<close>

definition line_entry :: "string \<Rightarrow> (string \<times> string) option" where
  "line_entry l =
     (case split_line l of
        None \<Rightarrow> None
      | Some (k, raw) \<Rightarrow>
          (case parse_value grant raw of None \<Rightarrow> None | Some v \<Rightarrow> Some (k, v)))"

definition file_entries :: "string \<Rightarrow> (string \<times> string) list" where
  "file_entries content = List.map_filter line_entry (file_lines content)"

fun install :: "environ \<Rightarrow> (string \<times> string) list \<Rightarrow> environ" where
  "install e [] = e"
| "install e ((k, v) # es) =
     install (put_entry k (k @ ''='' @ expand_spec (getenv e) v) e) es"

text \<open>
  No reference of a file looks ahead. A reference \<open>${NAME}\<close> reads the variable named
  by the text of \<open>NAME\<close> before its first \<open>=\<close> (all of \<open>NAME\<close> when it has none); that
  variable is either not assigned by the file at all, or assigned on an earlier line.
  \<open>D\<close> holds the keys assigned so far, \<open>A\<close> all the keys of the file.
\<close>

fun refs_settled :: "string list \<Rightarrow> string list \<Rightarrow> (string \<times> string) list \<Rightarrow> bool" where
  "refs_settled D A [] = True"
| "refs_settled D A ((k, v) # es) =
     ((\<forall>n\<in>set (ref_names v). entry_name n \<in> set A \<longrightarrow> entry_name n \<in> set D) \<and>
      refs_settled (k # D) A es)"

definition no_forward_refs :: "string \<Rightarrow> bool" where
  "no_forward_refs content =
     refs_settled [] (map fst (file_entries content)) (file_entries content)"

section \<open>Trimming\<close>

lemma rtrim_Cons: "\<not> P c \<Longrightarrow> rev (dropWhile P (rev (c # cs))) = c # rev (dropWhile P (rev cs))"
  by (simp add: dropWhile_append3 dropWhile_append2 dropWhile_append)

lemma trim_commute:
  "dropWhile P (rev (dropWhile P (rev xs))) = rev (dropWhile P (rev (dropWhile P xs)))"
proof (induction xs)
  case Nil
  show ?case by simp
next
  case (Cons x xs)
  show ?case
  proof (cases "P x")
    case True
    show ?thesis
    proof (cases "\<forall>y\<in>set xs. P y")
      case all: True
      have 1: "dropWhile P xs = []" using all by simp
      have 2: "dropWhile P (rev xs @ [x]) = []" using all True by simp
      show ?thesis unfolding rev.simps dropWhile.simps 1 2 using True by simp
    next
      case False
      then have "dropWhile P (rev xs @ [x]) = dropWhile P (rev xs) @ [x]"
        by (auto simp: dropWhile_append)
      then show ?thesis using True Cons.IH by simp
    qed
  next
    case False
    then show ?thesis by (simp add: rtrim_Cons del: rev.simps)
  qed
qed

lemma strip_end_Cons: "strip_end (c # cs) = c # rev (dropWhile isspace (rev cs))"
proof (induction cs rule: rev_induct)
  case Nil
  show ?case by (simp add: strip_end.simps)
next
  case (snoc x xs)
  have "strip_end ((c # xs) @ [x]) = (if isspace x then strip_end (c # xs) else (c # xs) @ [x])"
    by (subst strip_end.simps) (simp only: last_snoc butlast_snoc, simp)
  then show ?case using snoc by simp
qed

lemma strip_end_Nil: "strip_end [] = []"
  by (simp add: strip_end.simps)

lemma trim_inplace_spec: "trim_inplace s = trim_spec s"
proof (cases "dropWhile isspace s")
  case Nil
  show ?thesis unfolding trim_inplace_def trim_spec_def Nil by simp
next
  case (Cons c cs)
  then have "\<not> isspace c" using hd_dropWhile [of isspace s] by auto
  then show ?thesis
    unfolding trim_inplace_def trim_spec_def Cons
    by (simp add: strip_end_Cons rtrim_Cons del: rev.simps)
qed

lemma trim_trailing_eq: "trim_trailing s = rev (dropWhile isspace (rev s))"
proof (induction s rule: rev_induct)
  case Nil
  show ?case by (simp add: trim_trailing.simps)
next
  case (snoc x xs)
  then show ?case by (subst trim_trailing.simps) simp
qed

lemma trim_spec_Nil: "trim_spec [] = []"
  by (simp add: trim_spec_def)

lemma trim_spec_dropWhile: "trim_spec (dropWhile isspace s) = trim_spec s"
  by (simp add: trim_spec_def)

lemma trim_spec_alt: "trim_spec s = dropWhile isspace (rev (dropWhile isspace (rev s)))"
  by (simp add: trim_spec_def trim_commute)

lemma trim_string_copy_eq:
  "trim_string_copy M s =
     (if M (length (dropWhile isspace s) + 1) then Some (trim_spec s) else None)"
proof (cases "dropWhile isspace s")
  case Nil
  show ?thesis unfolding trim_string_copy_def xstrdup_def trim_spec_def Nil
    by (simp add: strip_end_Nil)
next
  case (Cons c cs)
  then have "\<not> isspace c" using hd_dropWhile [of isspace s] by auto
  then show ?thesis unfolding trim_string_copy_def xstrdup_def trim_spec_def Cons
    by (simp add: strip_end_Cons rtrim_Cons del: rev.simps)
qed

section \<open>The expander computes the single pass\<close>

lemma split_at_close_eq:
  "split_at_close cs =
     (if CHR ''}'' \<in> set cs
      then Some (takeWhile (\<lambda>c. c \<noteq> CHR ''}'') cs, tl (dropWhile (\<lambda>c. c \<noteq> CHR ''}'') cs))
      else None)"
  by (induction cs) auto

lemma expand_loop_Nil: "expand_loop M env [] out cap = Some out"
  by (simp add: expand_loop.simps)

lemma expand_loop_ref:
  assumes "CHR ''}'' \<in> set r"
  shows "expand_loop M env (CHR ''$'' # CHR ''{'' # r) out cap =
     (let name = takeWhile (\<lambda>c. c \<noteq> CHR ''}'') r;
          rest = tl (dropWhile (\<lambda>c. c \<noteq> CHR ''}'') r);
          val = (case getenv env name of None \<Rightarrow> [] | Some v \<Rightarrow> v);
          need = length out + length val + 1
      in if \<not> M (length name + 1) then None
         else if need > cap
           then (if \<not> M (need * 2) then None else expand_loop M env rest (out @ val) (need * 2))
           else expand_loop M env rest (out @ val) cap)"
  using assms by (subst expand_loop.simps) (simp add: Let_def)

lemma expand_loop_copy:
  assumes "\<not> (c = CHR ''$'' \<and> take 1 cs = ''{'' \<and> CHR ''}'' \<in> set (tl cs))"
  shows "expand_loop M env (c # cs) out cap =
     (if length out + 2 > cap
      then (if \<not> M ((cap + 64) * 2) then None
            else expand_loop M env cs (out @ [c]) ((cap + 64) * 2))
      else expand_loop M env cs (out @ [c]) cap)"
proof -
  have F: "(take 2 (c # cs) = ''${'' \<and> CHR ''}'' \<in> set (drop 2 (c # cs))) = False"
    using assms by (cases cs) auto
  show ?thesis
    by (subst expand_loop.simps) (simp only: F, simp)
qed

lemma expand_spec_ref:
  "CHR ''}'' \<in> set r \<Longrightarrow> expand_spec env (CHR ''$'' # CHR ''{'' # r) =
     (case env (takeWhile (\<lambda>c. c \<noteq> CHR ''}'') r) of None \<Rightarrow> [] | Some v \<Rightarrow> v) @
     expand_spec env (tl (dropWhile (\<lambda>c. c \<noteq> CHR ''}'') r))"
  by (simp add: split_at_close_eq)

lemma expand_spec_copy:
  "\<not> (c = CHR ''$'' \<and> take 1 cs = ''{'' \<and> CHR ''}'' \<in> set (tl cs)) \<Longrightarrow>
     expand_spec env (c # cs) = c # expand_spec env cs"
  by (cases cs) (auto simp: split_at_close_eq)

lemma length_tl_dropWhile: "length (tl (dropWhile P r)) < Suc (Suc (length r))"
  using length_dropWhile_le [of P r] by simp

lemma expand_loop_spec:
  "expand_loop M env p out cap = Some r \<Longrightarrow> r = out @ expand_spec (getenv env) p"
proof (induction p arbitrary: out cap rule: length_induct)
  case (1 p)
  show ?case
  proof (cases p)
    case Nil
    with 1(2) show ?thesis by (simp add: expand_loop_Nil)
  next
    case (Cons c cs)
    show ?thesis
    proof (cases "c = CHR ''$'' \<and> take 1 cs = ''{'' \<and> CHR ''}'' \<in> set (tl cs)")
      case True
      then obtain r' where p: "p = CHR ''$'' # CHR ''{'' # r'" and r: "CHR ''}'' \<in> set r'"
        using Cons by (cases cs) auto
      define rest where "rest = tl (dropWhile (\<lambda>c. c \<noteq> CHR ''}'') r')"
      define val where
        "val = (case getenv env (takeWhile (\<lambda>c. c \<noteq> CHR ''}'') r') of None \<Rightarrow> [] | Some v \<Rightarrow> v)"
      have len: "length rest < length p"
        unfolding p rest_def using length_tl_dropWhile by simp
      from 1(2) obtain cap' where "expand_loop M env rest (out @ val) cap' = Some r"
        unfolding p expand_loop_ref[OF r] rest_def val_def
        by (auto simp: Let_def split: if_splits)
      with 1(1) len have "r = (out @ val) @ expand_spec (getenv env) rest" by blast
      then show ?thesis
        unfolding p expand_spec_ref[OF r] rest_def val_def by simp
    next
      case False
      have len: "length cs < length p" using Cons by simp
      from 1(2) obtain cap' where "expand_loop M env cs (out @ [c]) cap' = Some r"
        unfolding Cons expand_loop_copy[OF False] by (auto split: if_splits)
      with 1(1) len have "r = (out @ [c]) @ expand_spec (getenv env) cs" by blast
      then show ?thesis
        unfolding Cons expand_spec_copy[OF False] by simp
    qed
  qed
qed

lemma expand_loop_total:
  "\<forall>n. M n \<Longrightarrow> expand_loop M env p out cap \<noteq> None"
proof (induction p arbitrary: out cap rule: length_induct)
  case (1 p)
  show ?case
  proof (cases p)
    case Nil
    then show ?thesis by (simp add: expand_loop_Nil)
  next
    case (Cons c cs)
    show ?thesis
    proof (cases "c = CHR ''$'' \<and> take 1 cs = ''{'' \<and> CHR ''}'' \<in> set (tl cs)")
      case True
      then obtain r' where p: "p = CHR ''$'' # CHR ''{'' # r'" and r: "CHR ''}'' \<in> set r'"
        using Cons by (cases cs) auto
      have len: "length (tl (dropWhile (\<lambda>c. c \<noteq> CHR ''}'') r')) < length p"
        unfolding p using length_tl_dropWhile by simp
      with 1 have "\<And>out cap. expand_loop M env (tl (dropWhile (\<lambda>c. c \<noteq> CHR ''}'') r')) out cap \<noteq> None"
        by blast
      then show ?thesis
        using 1(2) unfolding p expand_loop_ref[OF r]
        by (simp add: Let_def)
    next
      case False
      have len: "length cs < length p" using Cons by simp
      with 1 have "\<And>out cap. expand_loop M env cs out cap \<noteq> None"
        by blast
      then show ?thesis
        using 1(2) unfolding Cons expand_loop_copy[OF False]
        by simp
    qed
  qed
qed

lemma expand_spec_prefix:
  "CHR ''$'' \<notin> set pre \<Longrightarrow> expand_spec env (pre @ s) = pre @ expand_spec env s"
proof (induction pre)
  case Nil
  show ?case by simp
next
  case (Cons c cs)
  then have "expand_spec env (c # (cs @ s)) = c # expand_spec env (cs @ s)"
    by (intro expand_spec_copy) auto
  with Cons show ?case by simp
qed

lemma expand_spec_no_close:
  "CHR ''}'' \<notin> set s \<Longrightarrow> expand_spec env s = s"
proof (induction s)
  case Nil
  show ?case by simp
next
  case (Cons c cs)
  then have "expand_spec env (c # cs) = c # expand_spec env cs"
    by (intro expand_spec_copy) (cases cs; auto)
  with Cons show ?case by simp
qed

lemma expand_vars_granted:
  assumes "\<forall>n. M n"
  shows "expand_vars M env s = Some (expand_spec (getenv env) s)"
proof -
  from assms obtain r where r: "expand_loop M env s [] (length s + 1) = Some r"
    using expand_loop_total [of M env s "[]" "length s + 1"] by auto
  from expand_loop_spec [OF r] r assms show ?thesis
    by (simp add: expand_vars_def)
qed

section \<open>The value parser\<close>

lemma quoted_loop_eq:
  "length buf \<le> LINE_MAX - 1 \<Longrightarrow>
     quoted_loop Q p buf = take (LINE_MAX - 1) (buf @ quoted_literal Q p)"
proof (induction Q p arbitrary: buf rule: quoted_literal.induct)
  case (1 Q)
  then show ?case by (simp add: quoted_loop.simps)
next
  case (2 Q c)
  then show ?case
    by (subst quoted_loop.simps, subst quoted_loop.simps) auto
next
  case (3 Q c d cs)
  show ?case
  proof (cases "c \<noteq> Q \<and> length buf < LINE_MAX - 1")
    case True
    then show ?thesis
      using 3(1)[of "buf @ [d]"] 3(2)[of "buf @ [c]"]
      by (subst quoted_loop.simps) auto
  next
    case False
    then show ?thesis using 3(3)
      by (subst quoted_loop.simps) auto
  qed
qed

lemma unquoted_loop_eq:
  "length tmp \<le> LINE_MAX - 1 \<Longrightarrow>
     unquoted_loop p tmp = take (LINE_MAX - 1) (tmp @ takeWhile (\<lambda>c. c \<noteq> CHR ''#'') p)"
proof (induction p arbitrary: tmp)
  case Nil
  then show ?case by (simp add: unquoted_loop.simps)
next
  case (Cons c cs)
  show ?case
  proof (cases "length tmp < LINE_MAX - 1")
    case True
    then show ?thesis
      using Cons.IH[of "tmp @ [c]"]
      by (subst unquoted_loop.simps) auto
  next
    case False
    then show ?thesis using Cons.prems
      by (subst unquoted_loop.simps) auto
  qed
qed

lemma takeWhile_dropWhile_commute:
  "(\<And>x. Q x \<Longrightarrow> P x) \<Longrightarrow> takeWhile P (dropWhile Q xs) = dropWhile Q (takeWhile P xs)"
  by (induction xs) auto

lemma isspace_not_hash: "isspace c \<Longrightarrow> c \<noteq> CHR ''#''"
  by (auto simp: isspace_def)

lemma parse_value_quoted_eq:
  assumes "dropWhile isspace raw = Q # rest" and "Q = CHR 0x22 \<or> Q = CHR 0x27"
  shows "parse_value M raw = xstrdup M (take (LINE_MAX - 1) (quoted_literal Q rest))"
  using assms by (auto simp: parse_value_def quoted_loop_eq)

lemma parse_value_unquoted_eq:
  assumes len: "length raw < LINE_MAX"
    and unq: "take 1 (dropWhile isspace raw) \<notin> {[CHR 0x22], [CHR 0x27]}"
  shows "parse_value M raw = xstrdup M (trim_spec (takeWhile (\<lambda>c. c \<noteq> CHR ''#'') raw))"
proof -
  define p where "p = dropWhile isspace raw"
  have X: "takeWhile (\<lambda>c. c \<noteq> CHR ''#'') p = dropWhile isspace (takeWhile (\<lambda>c. c \<noteq> CHR ''#'') raw)"
    unfolding p_def by (rule takeWhile_dropWhile_commute) (rule isspace_not_hash)
  have lp: "length (takeWhile (\<lambda>c. c \<noteq> CHR ''#'') p) \<le> LINE_MAX - 1"
  proof -
    have "length (takeWhile (\<lambda>c. c \<noteq> CHR ''#'') p) \<le> length p" by (rule length_takeWhile_le)
    also have "length p \<le> length raw" unfolding p_def by (rule length_dropWhile_le)
    finally show ?thesis using len by simp
  qed
  have R: "dropWhile isspace (trim_trailing (unquoted_loop p [])) =
             trim_spec (takeWhile (\<lambda>c. c \<noteq> CHR ''#'') raw)"
    using lp by (simp add: unquoted_loop_eq trim_trailing_eq trim_spec_alt [symmetric] X trim_spec_dropWhile)
  show ?thesis
  proof (cases p)
    case Nil
    then show ?thesis using R
      by (simp add: parse_value_def p_def [symmetric] unquoted_loop.simps trim_trailing.simps)
  next
    case (Cons c cs)
    with unq have "c \<noteq> CHR 0x22" "c \<noteq> CHR 0x27" by (auto simp: p_def [symmetric])
    then show ?thesis using R Cons
      by (simp add: parse_value_def p_def [symmetric])
  qed
qed

lemma quoted_literal_hd: "quoted_literal Q (Q # tail) = []"
  by (cases tail) auto

lemma quoted_literal_closed:
  "Q \<notin> set body \<Longrightarrow> CHR 0x5C \<notin> set body \<Longrightarrow> quoted_literal Q (body @ Q # tail) = body"
  by (induction Q body rule: quoted_literal.induct) (auto simp: quoted_literal_hd)

lemma quoted_literal_open:
  "Q \<notin> set body \<Longrightarrow> CHR 0x5C \<notin> set body \<Longrightarrow> quoted_literal Q body = body"
  by (induction Q body rule: quoted_literal.induct) auto

section \<open>The splitter\<close>

lemma partitions_run_end:
  "\<forall>c\<in>set a. c \<notin> set delim \<Longrightarrow> partitions delim a = [a]"
  by (induction a) auto

lemma partitions_run:
  "\<forall>c\<in>set a. c \<notin> set delim \<Longrightarrow> d \<in> set delim \<Longrightarrow>
     partitions delim (a @ d # b) = a # partitions delim b"
  by (induction a) auto

lemma split_spec_skip:
  "split_spec delim (dropWhile (\<lambda>c. c \<in> set delim) s) = split_spec delim s"
  by (induction s) (auto simp: split_spec_def trim_spec_Nil)

lemma split_spec_strtok_None:
  "strtok s delim = None \<Longrightarrow> split_spec delim s = []"
proof -
  assume "strtok s delim = None"
  then have "dropWhile (\<lambda>c. c \<in> set delim) s = []"
    by (simp add: strtok_def split: list.splits)
  then have "split_spec delim (dropWhile (\<lambda>c. c \<in> set delim) s) = []"
    by (simp only: split_spec_def partitions.simps list.map trim_spec_Nil, simp)
  then show ?thesis by (simp only: split_spec_skip)
qed

lemma split_spec_strtok_Some:
  assumes "strtok s delim = Some (tok, rest)"
  shows "split_spec delim s =
           (if trim_spec tok \<noteq> [] then [trim_spec tok] else []) @ split_spec delim rest"
proof -
  define s1 where "s1 = dropWhile (\<lambda>c. c \<in> set delim) s"
  define after where "after = dropWhile (\<lambda>c. c \<notin> set delim) s1"
  from assms have tok: "tok = takeWhile (\<lambda>c. c \<notin> set delim) s1" and rest: "rest = drop 1 after"
    unfolding strtok_def s1_def after_def
    by (auto split: list.splits simp del: dropWhile.simps takeWhile.simps dropWhile_eq_Nil_conv)
  have s1: "s1 = tok @ after" unfolding tok after_def by simp
  have run: "\<forall>c\<in>set tok. c \<notin> set delim" unfolding tok by (auto dest: set_takeWhileD)
  have "split_spec delim s1 =
          (if trim_spec tok \<noteq> [] then [trim_spec tok] else []) @ split_spec delim rest"
  proof (cases after)
    case Nil
    then show ?thesis
      using run unfolding s1 rest
      by (simp add: split_spec_def partitions_run_end trim_spec_Nil)
  next
    case (Cons d b)
    then have "d \<in> set delim"
      using hd_dropWhile [of "\<lambda>c. c \<notin> set delim" s1] unfolding after_def by auto
    then show ?thesis
      using run Cons unfolding s1 rest
      by (simp add: split_spec_def partitions_run)
  qed
  then show ?thesis unfolding s1_def by (simp only: split_spec_skip)
qed

lemma strtok_shorter: "strtok s delim = Some (tok, rest) \<Longrightarrow> length rest < length s"
proof -
  assume a: "strtok s delim = Some (tok, rest)"
  define d where "d = dropWhile (\<lambda>c. c \<in> set delim) s"
  from a have d: "d \<noteq> []" and r: "rest = drop 1 (dropWhile (\<lambda>c. c \<notin> set delim) d)"
    unfolding strtok_def d_def
    by (auto split: list.splits simp del: dropWhile.simps takeWhile.simps dropWhile_eq_Nil_conv)
  have "length d \<le> length s"
    unfolding d_def by (rule length_dropWhile_le)
  moreover have "length (dropWhile (\<lambda>c. c \<notin> set delim) d) \<le> length d"
    by (rule length_dropWhile_le)
  ultimately show ?thesis
    using d unfolding r by (cases d) auto
qed

lemma split_loop_None:
  "strtok rest delim = None \<Longrightarrow>
     split_loop M delim rest result cap count = Some (result[count := Null], count)"
  by (subst split_loop.simps) simp

lemma split_loop_Some:
  "strtok rest delim = Some (tok, rest') \<Longrightarrow>
     split_loop M delim rest result cap count =
       (if M (length (dropWhile isspace tok) + 1) \<and> trim_spec tok \<noteq> [] then
          (if count \<ge> cap - 1 then
             (if \<not> M (sizeof_ptr * (cap * 2)) then None
              else split_loop M delim rest'
                     ((result @ replicate cap Uninit)[count := Ptr (trim_spec tok)]) (cap * 2) (count + 1))
           else split_loop M delim rest' (result[count := Ptr (trim_spec tok)]) cap (count + 1))
        else split_loop M delim rest' result cap count)"
  by (subst split_loop.simps) (simp add: trim_string_copy_eq)

lemma split_loop_terminated:
  "split_loop M delim rest result cap count = Some (arr, n) \<Longrightarrow>
   length result = cap \<Longrightarrow> count < cap \<Longrightarrow> n < length arr \<and> arr ! n = Null"
proof (induction rest arbitrary: result cap count rule: length_induct)
  case (1 rest)
  show ?case
  proof (cases "strtok rest delim")
    case None
    with 1(2-) show ?thesis by (auto simp: split_loop_None)
  next
    case (Some a)
    obtain tok rest' where a: "a = (tok, rest')" by (cases a)
    have len: "length rest' < length rest" using Some a strtok_shorter by blast
    note IH = 1(1)[rule_format, OF len]
    show ?thesis
      using 1(2) 1(3) 1(4)
      unfolding split_loop_Some[OF Some[unfolded a]]
      by (auto split: if_splits dest!: IH)
  qed
qed

lemma split_loop_empty:
  "split_spec delim rest = [] \<Longrightarrow>
     split_loop M delim rest result cap count = Some (result[count := Null], count)"
proof (induction rest rule: length_induct)
  case (1 rest)
  show ?case
  proof (cases "strtok rest delim")
    case None
    then show ?thesis by (simp add: split_loop_None)
  next
    case (Some a)
    obtain tok rest' where a: "a = (tok, rest')" by (cases a)
    have len: "length rest' < length rest" using Some a strtok_shorter by blast
    from 1(2) have e: "trim_spec tok = []" "split_spec delim rest' = []"
      unfolding split_spec_strtok_Some[OF Some[unfolded a]] by (auto split: if_splits)
    show ?thesis
      using 1(1)[rule_format, OF len e(2)] e(1)
      unfolding split_loop_Some[OF Some[unfolded a]] by simp
  qed
qed

lemma split_loop_granted:
  "(\<And>n. M n) \<Longrightarrow> length result = cap \<Longrightarrow> count < cap \<Longrightarrow>
   \<exists>arr. split_loop M delim rest result cap count =
            Some (arr, count + length (split_spec delim rest)) \<and>
         take (count + length (split_spec delim rest)) arr =
            take count result @ map Ptr (split_spec delim rest)"
proof (induction rest arbitrary: result cap count rule: length_induct)
  case (1 rest)
  show ?case
  proof (cases "strtok rest delim")
    case None
    then show ?thesis using 1(3,4)
      by (simp add: split_loop_None split_spec_strtok_None)
  next
    case (Some a)
    obtain tok rest' where a: "a = (tok, rest')" by (cases a)
    have len: "length rest' < length rest" using Some a strtok_shorter by blast
    note IH = 1(1)[rule_format, OF len 1(2)]
    note sp = split_spec_strtok_Some[OF Some[unfolded a]]
    note lp = split_loop_Some[OF Some[unfolded a]]
    show ?thesis
    proof (cases "trim_spec tok = []")
      case True
      then show ?thesis
        using IH[OF 1(3) 1(4)] 1(2) unfolding lp sp by simp
    next
      case False
      show ?thesis
      proof (cases "count \<ge> cap - 1")
        case grow: True
        let ?r = "(result @ replicate cap Uninit)[count := Ptr (trim_spec tok)]"
        have l: "length ?r = cap * 2" using 1(3) by simp
        have c: "count + 1 < cap * 2" using 1(4) by simp
        have t: "take (count + 1) ?r = take count result @ [Ptr (trim_spec tok)]"
          using 1(3,4) by (simp add: take_Suc_conv_app_nth)
        show ?thesis
          using IH[OF l c] False grow 1(2) unfolding lp sp t by simp
      next
        case nogrow: False
        let ?r = "result[count := Ptr (trim_spec tok)]"
        have l: "length ?r = cap" using 1(3) by simp
        have c: "count + 1 < cap" using nogrow by simp
        have t: "take (count + 1) ?r = take count result @ [Ptr (trim_spec tok)]"
          using 1(3,4) by (simp add: take_Suc_conv_app_nth)
        show ?thesis
          using IH[OF l c] False nogrow 1(2) unfolding lp sp t by simp
      qed
    qed
  qed
qed

section \<open>The loader and the collector\<close>

lemma parse_value_granted: "(\<And>n. M n) \<Longrightarrow> parse_value M raw \<noteq> None"
  by (simp add: parse_value_def xstrdup_def split: list.splits)

lemma expand_vars_not_None: "(\<And>n. M n) \<Longrightarrow> expand_vars M env v \<noteq> None"
  using expand_vars_granted [of M env v] by simp

lemma load_lines_frame:
  "load_lines sys ls n v e p = (st, v', e', p') \<Longrightarrow>
     st \<in> {0, - 2, - 3} \<and> (\<exists>ws. p' = p @ ws \<and> (\<forall>m\<in>set ws. \<exists>k i. m = WarnLine k i))"
proof (induction ls arbitrary: n v e p)
  case Nil
  then show ?case by simp
next
  case (Cons l ls)
  show ?case
  proof (cases "split_line l")
    case None
    with Cons show ?thesis by simp
  next
    case (Some kv)
    obtain k raw where kv: "kv = (k, raw)" by (cases kv)
    show ?thesis
    proof (cases "parse_value (malloc_ok sys) raw")
      case None
      with Cons.prems Some kv show ?thesis by simp
    next
      case P: (Some val)
      show ?thesis
      proof (cases "expand_vars (malloc_ok sys) e val")
        case None
        with Cons.prems Some kv P show ?thesis by simp
      next
        case E: (Some ve)
        obtain e1 rc where s: "set_env_var sys e k ve = (e1, rc)" by (cases "set_env_var sys e k ve")
        show ?thesis
        proof (cases "rc = 0")
          case True
          with Cons.prems Some kv P E s
          have "load_lines sys ls (n + 1) (v + 1) e1 p = (st, v', e', p')" by simp
          from Cons.IH [OF this] show ?thesis .
        next
          case False
          with Cons.prems Some kv P E s
          have "load_lines sys ls (n + 1) v e1 (p @ [WarnLine k (n + 1)]) = (st, v', e', p')" by simp
          from Cons.IH [OF this] show ?thesis by auto
        qed
      qed
    qed
  qed
qed

lemma load_lines_fatal:
  "load_lines sys ls n v e p = (st, v', e', p') \<Longrightarrow>
     (st = - 2 \<longrightarrow> (\<exists>l\<in>set ls. \<exists>k raw. split_line l = Some (k, raw) \<and>
                        parse_value (malloc_ok sys) raw = None)) \<and>
     (st = - 3 \<longrightarrow> (\<exists>l\<in>set ls. \<exists>k raw val env'. split_line l = Some (k, raw) \<and>
                        parse_value (malloc_ok sys) raw = Some val \<and>
                        expand_vars (malloc_ok sys) env' val = None))"
proof (induction ls arbitrary: n v e p)
  case Nil
  then show ?case by simp
next
  case (Cons l ls)
  show ?case
  proof (cases "split_line l")
    case None
    with Cons.prems have "load_lines sys ls (n + 1) v e p = (st, v', e', p')" by simp
    from Cons.IH [OF this] show ?thesis by auto
  next
    case (Some kv)
    obtain k raw where kv: "kv = (k, raw)" by (cases kv)
    show ?thesis
    proof (cases "parse_value (malloc_ok sys) raw")
      case None
      with Cons.prems Some kv show ?thesis by auto
    next
      case P: (Some val)
      show ?thesis
      proof (cases "expand_vars (malloc_ok sys) e val")
        case None
        with Cons.prems Some kv P show ?thesis by auto
      next
        case E: (Some ve)
        obtain e1 rc where s: "set_env_var sys e k ve = (e1, rc)" by (cases "set_env_var sys e k ve")
        from Cons.prems Some kv P E s
        obtain v1 p1 where "load_lines sys ls (n + 1) v1 e1 p1 = (st, v', e', p')"
          by (cases "rc = 0") auto
        from Cons.IH [OF this] show ?thesis by auto
      qed
    qed
  qed
qed

lemma load_lines_granted:
  "(\<And>n. malloc_ok sys n) \<Longrightarrow> fst (load_lines sys ls n v e p) = 0"
proof -
  assume g: "\<And>n. malloc_ok sys n"
  obtain st v' e' p' where r: "load_lines sys ls n v e p = (st, v', e', p')"
    by (cases "load_lines sys ls n v e p")
  from load_lines_frame [OF r] load_lines_fatal [OF r]
    parse_value_granted [of "malloc_ok sys", OF g] expand_vars_not_None [of "malloc_ok sys", OF g]
  show ?thesis unfolding r by auto
qed

lemma load_lines_append:
  "load_lines sys (pre @ ls) n v e p =
     (case load_lines sys pre n v e p of
        (st, v', e', p') \<Rightarrow>
          if st = 0 then load_lines sys ls (n + int (length pre)) v' e' p' else (st, v', e', p'))"
proof (induction pre arbitrary: n v e p)
  case Nil
  show ?case by simp
next
  case (Cons l pre)
  have a: "n + 1 + int (length pre) = n + int (length (l # pre))" by simp
  show ?case
    by (simp add: Cons.IH a split: option.splits prod.splits del: length_Cons)
qed

lemma fgets_shorter: "fgets LINE_MAX inp = Some (l, inp') \<Longrightarrow> length inp' < length inp"
  by (auto simp: fgets_def LINE_MAX_def Let_def split: if_splits)

lemma interactive_loop_eof:
  "fgets LINE_MAX inp = None \<Longrightarrow>
     interactive_loop sys inp fw e p a = (a, inp, fw, e, p @ [Prompt])"
  by (subst interactive_loop.simps) simp

lemma interactive_loop_Some:
  "fgets LINE_MAX inp = Some (line0, inp') \<Longrightarrow>
   interactive_loop sys inp fw env pr added =
          (let line = strip_newlines (cstr line0);
               tmp = trim_inplace (take (LINE_MAX - 1) line);
               pr1 = pr @ [Prompt]
           in if tmp = [] then (added, inp', fw, env, pr1)
              else if CHR ''='' \<notin> set tmp
                then interactive_loop sys inp' fw env (pr1 @ [InvalidFormat]) added
              else
                (let keylen = length (takeWhile (\<lambda>c. c \<noteq> CHR ''='') tmp)
                 in if keylen = 0
                      then interactive_loop sys inp' fw env (pr1 @ [KeyEmpty]) added
                    else if keylen \<ge> LINE_MAX
                      then interactive_loop sys inp' fw env (pr1 @ [KeyTooLong]) added
                    else
                      (let keybuf = trim_inplace (take keylen tmp)
                       in if keybuf = []
                            then interactive_loop sys inp' fw env (pr1 @ [KeyEmptyAfterTrim]) added
                          else
                            (let val = drop (keylen + 1) tmp
                             in if \<not> fprintf_ok sys (tmp @ [CHR 0x0A])
                                  then (- 1, inp', fw, env, pr1)
                                else
                                  (let fw' = (if fflush_ok sys (tmp @ [CHR 0x0A])
                                              then fw @ tmp @ [CHR 0x0A] else fw)
                                   in case set_env_var sys env keybuf val of
                                        (env', rc) \<Rightarrow>
                                          if rc \<noteq> 0
                                            then interactive_loop sys inp' fw' env'
                                                   (pr1 @ [WarnSetFailed keybuf]) added
                                            else interactive_loop sys inp' fw' env'
                                                   pr1 (added + 1))))))"
  by (subst interactive_loop.simps) simp

lemma interactive_loop_result:
  "0 \<le> a \<Longrightarrow>
     0 \<le> fst (interactive_loop sys inp fw e p a) \<or>
     (fst (interactive_loop sys inp fw e p a) = - 1 \<and> (\<exists>t. \<not> fprintf_ok sys t))"
proof (induction inp arbitrary: fw e p a rule: length_induct)
  case (1 inp)
  define P where "P r \<longleftrightarrow> 0 \<le> fst r \<or> (fst r = - 1 \<and> (\<exists>t. \<not> fprintf_ok sys t))"
    for r :: "int \<times> string \<times> string \<times> environ \<times> message list"
  show ?case
  proof (cases "fgets LINE_MAX inp")
    case None
    then show ?thesis using 1(2) by (simp add: interactive_loop_eof)
  next
    case (Some r)
    obtain l inp' where r: "r = (l, inp')" by (cases r)
    have len: "length inp' < length inp" using Some r fgets_shorter by blast
    have rec: "P (interactive_loop sys inp' fw' e' p' a')" if "0 \<le> a'" for fw' e' p' a'
      using 1(1) len that unfolding P_def by blast
    have rec1: "P (interactive_loop sys inp' fw' e' p' (a + 1))" for fw' e' p'
      using 1(2) by (intro rec) simp
    have leaf1: "P (a, x)" for x using 1(2) by (simp add: P_def)
    have leaf2: "P (- 1, x)" if "\<not> fprintf_ok sys t" for x t
      using that by (auto simp: P_def)
    have "P (interactive_loop sys inp fw e p a)"
      unfolding interactive_loop_Some [OF Some [unfolded r]]
      by (simp add: Let_def rec [OF 1(2)] rec1 leaf1 leaf2 split: prod.splits)
    then show ?thesis unfolding P_def .
  qed
qed

lemma interactive_create_entries_result:
  "0 \<le> fst (interactive_create_entries sys w) \<or>
   (fst (interactive_create_entries sys w) = - 1 \<and>
    (\<not> fopen_append_ok sys \<or> (\<exists>t. \<not> fprintf_ok sys t)))"
  using interactive_loop_result
    [of 0 sys "w_stdin w" "case w_file w of None \<Rightarrow> [] | Some c \<Rightarrow> c" "w_env w"
        "w_printed w @ [EnterPairs]"]
  by (auto simp: interactive_create_entries_def split: prod.splits)

lemma read_file_frame:
  assumes "read_file sys w = (st, vs, w1)"
  shows "st \<in> {0, - 2, - 3} \<and> w_stdin w1 = w_stdin w \<and> w_file w1 = w_file w \<and>
         (\<exists>ws. w_printed w1 = w_printed w @ ws \<and> (\<forall>m\<in>set ws. \<exists>k i. m = WarnLine k i))"
proof (cases "w_file w")
  case None
  with assms show ?thesis by (auto simp: read_file_def)
next
  case (Some content)
  obtain st' v' e' p' where r: "load_lines sys (file_lines content) 0 0 (w_env w) (w_printed w) = (st', v', e', p')"
    by (cases "load_lines sys (file_lines content) 0 0 (w_env w) (w_printed w)")
  from load_lines_frame [OF r] assms Some r show ?thesis
    by (auto simp: read_file_def)
qed

lemma length_strip_newlines: "length (strip_newlines s) \<le> length s"
proof (induction s rule: rev_induct)
  case Nil
  show ?case by (simp add: strip_newlines.simps)
next
  case (snoc x xs)
  then show ?case by (subst strip_newlines.simps) simp
qed

lemma length_trim_spec: "length (trim_spec s) \<le> length s"
proof -
  have "length (trim_spec s) \<le> length (dropWhile isspace s)"
    unfolding trim_spec_def using length_dropWhile_le [of isspace "rev (dropWhile isspace s)"]
    by simp
  also have "\<dots> \<le> length s" by (rule length_dropWhile_le)
  finally show ?thesis .
qed

text \<open>Every raw value that \<open>load_dotenv\<close> hands to \<open>parse_value\<close> fits the line buffer.\<close>

lemma split_line_value_length:
  assumes "split_line l = Some (k, raw)"
  shows "length raw < LINE_MAX"
proof -
  define s0 where "s0 = trim_inplace (take (LINE_MAX - 1) (cstr l))"
  define s where "s = (if take 7 s0 = ''export '' then drop 7 s0 else s0)"
  define eq where "eq = length (takeWhile (\<lambda>c. c \<noteq> CHR ''='') s)"
  from assms have raw: "raw = strip_newlines (drop (eq + 1) s)"
    unfolding split_line_def Let_def s0_def [symmetric] s_def [symmetric] eq_def [symmetric]
    by (auto split: if_splits)
  have "length s0 \<le> LINE_MAX - 1"
    unfolding s0_def trim_inplace_spec using length_trim_spec [of "take (LINE_MAX - 1) (cstr l)"]
    by simp
  then have "length s \<le> LINE_MAX - 1" unfolding s_def by auto
  then have "length (drop (eq + 1) s) \<le> LINE_MAX - 1" by simp
  with length_strip_newlines [of "drop (eq + 1) s"] have "length raw \<le> LINE_MAX - 1"
    unfolding raw by simp
  then show ?thesis by (simp add: LINE_MAX_def)
qed

section \<open>The environment\<close>

lemma entry_matches_split:
  "entry_matches name ep \<longleftrightarrow> (\<exists>rest. ep = name @ CHR ''='' # rest)"
proof
  assume "entry_matches name ep"
  then have "take (length name + 1) ep = name @ ''=''" by (simp add: entry_matches_def)
  then have "ep = (name @ ''='') @ drop (length name + 1) ep"
    by (metis append_take_drop_id)
  then show "\<exists>rest. ep = name @ CHR ''='' # rest" by auto
next
  assume "\<exists>rest. ep = name @ CHR ''='' # rest"
  then show "entry_matches name ep" by (auto simp: entry_matches_def)
qed

lemma entry_name_append:
  "CHR ''='' \<notin> set name \<Longrightarrow> entry_name (name @ CHR ''='' # rest) = name"
  by (auto simp: entry_name_def takeWhile_tail takeWhile_eq_all_conv [THEN iffD2])

lemma entry_matches_name:
  assumes "CHR ''='' \<notin> set name"
  shows "entry_matches name ep \<longleftrightarrow> CHR ''='' \<in> set ep \<and> entry_name ep = name"
proof
  assume "entry_matches name ep"
  then obtain rest where "ep = name @ CHR ''='' # rest"
    unfolding entry_matches_split by blast
  then show "CHR ''='' \<in> set ep \<and> entry_name ep = name"
    using assms by (simp add: entry_name_append)
next
  assume a: "CHR ''='' \<in> set ep \<and> entry_name ep = name"
  define d where "d = dropWhile (\<lambda>c. c \<noteq> CHR ''='') ep"
  have ep: "ep = name @ d"
    using a unfolding d_def entry_name_def by (metis takeWhile_dropWhile_id)
  have "d \<noteq> []" using a unfolding d_def by (auto simp: dropWhile_eq_Nil_conv)
  moreover from this have "hd d = CHR ''=''"
    unfolding d_def using hd_dropWhile [of "\<lambda>c. c \<noteq> CHR ''=''" ep] by auto
  ultimately obtain rest where "d = CHR ''='' # rest" by (cases d) auto
  with ep show "entry_matches name ep" unfolding entry_matches_split by blast
qed

lemma entry_name_no_eq: "CHR ''='' \<notin> set (entry_name n)"
  by (auto simp: entry_name_def dest: set_takeWhileD)

lemma entry_matches_entry_name:
  assumes "entry_matches n ep"
  shows "entry_matches (entry_name n) ep"
proof (cases "CHR ''='' \<in> set n")
  case False
  then have "entry_name n = n"
    by (auto simp: entry_name_def takeWhile_eq_all_conv [THEN iffD2])
  with assms show ?thesis by simp
next
  case True
  define d where "d = dropWhile (\<lambda>c. c \<noteq> CHR ''='') n"
  have n: "n = entry_name n @ d"
    unfolding d_def entry_name_def by simp
  have "d \<noteq> []" using True unfolding d_def by (auto simp: dropWhile_eq_Nil_conv)
  moreover from this have "hd d = CHR ''=''"
    unfolding d_def using hd_dropWhile [of "\<lambda>c. c \<noteq> CHR ''=''" n] by auto
  ultimately obtain r where d: "d = CHR ''='' # r" by (cases d) auto
  from assms obtain rest where "ep = n @ CHR ''='' # rest"
    unfolding entry_matches_split by blast
  then have "ep = entry_name n @ CHR ''='' # (r @ CHR ''='' # rest)"
    using n d by (metis append.assoc append_Cons)
  then show ?thesis unfolding entry_matches_split by blast
qed

lemma entry_matches_unique:
  "CHR ''='' \<notin> set k \<Longrightarrow> CHR ''='' \<notin> set k' \<Longrightarrow> entry_matches k ep \<Longrightarrow>
     entry_matches k' ep \<Longrightarrow> k = k'"
  by (simp add: entry_matches_name)

lemma getenv_store_value:
  assumes "name \<noteq> []" and "CHR ''='' \<notin> set name"
  shows "getenv env name = store_value env name"
proof -
  have "entry_matches name = (\<lambda>ep. CHR ''='' \<in> set ep \<and> entry_name ep = name)"
    using entry_matches_name [OF assms(2)] by (intro ext) simp
  then show ?thesis
    using assms(1) by (simp add: getenv_def store_value_def)
qed

lemma find_filter: "(\<And>x. P x \<Longrightarrow> Q x) \<Longrightarrow> find P (filter Q xs) = find P xs"
  by (induction xs) auto

lemma getenv_entries_of: "getenv env n = getenv (entries_of (entry_name n) env) n"
  unfolding getenv_def entries_of_def
  by (simp add: find_filter [of "entry_matches n" "entry_matches (entry_name n)" env]
      entry_matches_entry_name)

lemma entries_of_put_other:
  "CHR ''='' \<notin> set k \<Longrightarrow> CHR ''='' \<notin> set k' \<Longrightarrow> k' \<noteq> k \<Longrightarrow>
     entries_of k' (put_entry k (k @ CHR ''='' # v) env) = entries_of k' env"
proof (induction env)
  case Nil
  have "entry_matches k (k @ CHR ''='' # v)" unfolding entry_matches_split by blast
  with Nil have "\<not> entry_matches k' (k @ CHR ''='' # v)"
    using entry_matches_unique by blast
  then show ?case by (simp add: entries_of_def)
next
  case (Cons ep env)
  show ?case
  proof (cases "entry_matches k ep")
    case True
    have "entry_matches k (k @ CHR ''='' # v)" unfolding entry_matches_split by blast
    with Cons.prems True have "\<not> entry_matches k' (k @ CHR ''='' # v)" "\<not> entry_matches k' ep"
      using entry_matches_unique by blast+
    with True show ?thesis by (simp add: entries_of_def)
  next
    case False
    with Cons show ?thesis by (simp add: entries_of_def)
  qed
qed

lemma entries_of_put_same:
  "entries_of k (put_entry k (k @ CHR ''='' # v) env) =
     (k @ CHR ''='' # v) # tl (entries_of k env)"
proof (induction env)
  case Nil
  have "entry_matches k (k @ CHR ''='' # v)" unfolding entry_matches_split by blast
  then show ?case by (simp add: entries_of_def)
next
  case (Cons ep env)
  have m: "entry_matches k (k @ CHR ''='' # v)" unfolding entry_matches_split by blast
  show ?case
  proof (cases "entry_matches k ep")
    case True
    with m show ?thesis by (simp add: entries_of_def)
  next
    case False
    with Cons show ?thesis by (simp add: entries_of_def)
  qed
qed

lemma entries_of_put_tl:
  assumes "CHR ''='' \<notin> set k" and "CHR ''='' \<notin> set k'"
  shows "tl (entries_of k' (put_entry k (k @ CHR ''='' # v) env)) = tl (entries_of k' env)"
proof (cases "k' = k")
  case True
  then show ?thesis by (simp add: entries_of_put_same)
next
  case False
  with assms show ?thesis by (simp add: entries_of_put_other)
qed

lemma entries_of_put_present:
  assumes "CHR ''='' \<notin> set k" and "CHR ''='' \<notin> set k'" and "entries_of k' env \<noteq> []"
  shows "entries_of k' (put_entry k (k @ CHR ''='' # v) env) \<noteq> []"
proof (cases "k' = k")
  case True
  then show ?thesis by (simp add: entries_of_put_same)
next
  case False
  with assms show ?thesis by (simp add: entries_of_put_other)
qed

section \<open>Loading a file twice\<close>

lemma ref_names_ref:
  "CHR ''}'' \<in> set r \<Longrightarrow> ref_names (CHR ''$'' # CHR ''{'' # r) =
     takeWhile (\<lambda>c. c \<noteq> CHR ''}'') r # ref_names (tl (dropWhile (\<lambda>c. c \<noteq> CHR ''}'') r))"
  by (simp add: split_at_close_eq)

lemma ref_names_copy:
  "\<not> (c = CHR ''$'' \<and> take 1 cs = ''{'' \<and> CHR ''}'' \<in> set (tl cs)) \<Longrightarrow>
     ref_names (c # cs) = ref_names cs"
  by (cases cs) (auto simp: split_at_close_eq)

lemma expand_spec_cong:
  "(\<And>n. n \<in> set (ref_names v) \<Longrightarrow> e1 n = e2 n) \<Longrightarrow> expand_spec e1 v = expand_spec e2 v"
proof (induction v rule: length_induct)
  case (1 v)
  show ?case
  proof (cases v)
    case Nil
    then show ?thesis by simp
  next
    case (Cons c cs)
    show ?thesis
    proof (cases "c = CHR ''$'' \<and> take 1 cs = ''{'' \<and> CHR ''}'' \<in> set (tl cs)")
      case True
      then obtain r where v: "v = CHR ''$'' # CHR ''{'' # r" and r: "CHR ''}'' \<in> set r"
        using Cons by (cases cs) auto
      define rest where "rest = tl (dropWhile (\<lambda>c. c \<noteq> CHR ''}'') r)"
      define name where "name = takeWhile (\<lambda>c. c \<noteq> CHR ''}'') r"
      have len: "length rest < length v"
        unfolding v rest_def using length_tl_dropWhile by simp
      have rn: "ref_names v = name # ref_names rest"
        unfolding v rest_def name_def by (rule ref_names_ref [OF r])
      have "e1 name = e2 name" using 1(2) [of name] rn by simp
      moreover have "expand_spec e1 rest = expand_spec e2 rest"
        using 1(1) len 1(2) rn by simp
      ultimately show ?thesis
        unfolding v expand_spec_ref [OF r] rest_def [symmetric] name_def [symmetric] by simp
    next
      case False
      have len: "length cs < length v" using Cons by simp
      have rn: "ref_names v = ref_names cs"
        unfolding Cons by (rule ref_names_copy [OF False])
      have "expand_spec e1 cs = expand_spec e2 cs"
        using 1(1) len 1(2) rn by simp
      then show ?thesis
        unfolding Cons expand_spec_copy [OF False] by simp
    qed
  qed
qed

lemma install_other:
  "\<forall>kv\<in>set es. CHR ''='' \<notin> set (fst kv) \<Longrightarrow> CHR ''='' \<notin> set k \<Longrightarrow> k \<notin> fst ` set es \<Longrightarrow>
     entries_of k (install e es) = entries_of k e"
proof (induction es arbitrary: e)
  case Nil
  show ?case by simp
next
  case (Cons kv es)
  obtain k0 v where kv: "kv = (k0, v)" by (cases kv)
  from Cons.prems kv have "CHR ''='' \<notin> set k0" "k \<noteq> k0" by auto
  then have "entries_of k (put_entry k0 (k0 @ CHR ''='' # expand_spec (getenv e) v) e) =
      entries_of k e"
    using Cons.prems(2) by (intro entries_of_put_other) auto
  moreover have "entries_of k (install (put_entry k0 (k0 @ CHR ''='' # expand_spec (getenv e) v) e) es) =
      entries_of k (put_entry k0 (k0 @ CHR ''='' # expand_spec (getenv e) v) e)"
    using Cons.prems by (intro Cons.IH) auto
  ultimately show ?case by (simp add: kv)
qed

lemma install_tl:
  "\<forall>kv\<in>set es. CHR ''='' \<notin> set (fst kv) \<Longrightarrow> CHR ''='' \<notin> set k \<Longrightarrow>
     tl (entries_of k (install e es)) = tl (entries_of k e)"
proof (induction es arbitrary: e)
  case Nil
  show ?case by simp
next
  case (Cons kv es)
  obtain k0 v where kv: "kv = (k0, v)" by (cases kv)
  from Cons.prems kv have k0: "CHR ''='' \<notin> set k0" by auto
  have "tl (entries_of k (install (put_entry k0 (k0 @ CHR ''='' # expand_spec (getenv e) v) e) es)) =
      tl (entries_of k (put_entry k0 (k0 @ CHR ''='' # expand_spec (getenv e) v) e))"
    using Cons.prems by (intro Cons.IH) auto
  also have "\<dots> = tl (entries_of k e)"
    by (rule entries_of_put_tl [OF k0 Cons.prems(2)])
  finally show ?case by (simp add: kv)
qed

lemma install_present:
  "\<forall>kv\<in>set es. CHR ''='' \<notin> set (fst kv) \<Longrightarrow> CHR ''='' \<notin> set k \<Longrightarrow>
     k \<in> fst ` set es \<or> entries_of k e \<noteq> [] \<Longrightarrow> entries_of k (install e es) \<noteq> []"
proof (induction es arbitrary: e)
  case Nil
  then show ?case by simp
next
  case (Cons kv es)
  obtain k0 v where kv: "kv = (k0, v)" by (cases kv)
  from Cons.prems kv have k0: "CHR ''='' \<notin> set k0" by auto
  let ?e = "put_entry k0 (k0 @ CHR ''='' # expand_spec (getenv e) v) e"
  have "k \<in> fst ` set es \<or> entries_of k ?e \<noteq> []"
  proof (cases "k = k0")
    case True
    then show ?thesis by (simp add: entries_of_put_same)
  next
    case False
    with Cons.prems(3) kv have "k \<in> fst ` set es \<or> entries_of k e \<noteq> []" by auto
    then show ?thesis
      using entries_of_put_present [OF k0 Cons.prems(2)] by blast
  qed
  then have "entries_of k (install ?e es) \<noteq> []"
    using Cons.prems by (intro Cons.IH) auto
  then show ?case by (simp add: kv)
qed

lemma install_agree:
  assumes "refs_settled D A es" and "fst ` set es \<subseteq> set A"
    and "\<forall>kv\<in>set es. CHR ''='' \<notin> set (fst kv)"
    and "\<And>k. CHR ''='' \<notin> set k \<Longrightarrow> k \<in> set D \<or> k \<notin> set A \<Longrightarrow> entries_of k e1 = entries_of k e2"
    and "\<And>k. CHR ''='' \<notin> set k \<Longrightarrow> tl (entries_of k e1) = tl (entries_of k e2)"
    and "CHR ''='' \<notin> set x" and "x \<in> set D \<or> x \<notin> set A \<or> x \<in> fst ` set es"
  shows "entries_of x (install e1 es) = entries_of x (install e2 es)"
  using assms
proof (induction es arbitrary: D e1 e2)
  case Nil
  then show ?case by auto
next
  case (Cons kv es)
  obtain k v where kv: "kv = (k, v)" by (cases kv)
  from Cons.prems(3) kv have k: "CHR ''='' \<notin> set k" by simp
  have look: "getenv e1 n = getenv e2 n" if "n \<in> set (ref_names v)" for n
  proof -
    from Cons.prems(1) kv that have "entry_name n \<in> set A \<longrightarrow> entry_name n \<in> set D" by simp
    then have "entries_of (entry_name n) e1 = entries_of (entry_name n) e2"
      using Cons.prems(4) [of "entry_name n"] entry_name_no_eq by blast
    then show ?thesis
      using getenv_entries_of [of e1 n] getenv_entries_of [of e2 n] by simp
  qed
  have v: "expand_spec (getenv e1) v = expand_spec (getenv e2) v"
    by (rule expand_spec_cong) (rule look)
  define val where "val = expand_spec (getenv e2) v"
  let ?e1 = "put_entry k (k @ CHR ''='' # val) e1"
  let ?e2 = "put_entry k (k @ CHR ''='' # val) e2"
  have r: "refs_settled (k # D) A es" using Cons.prems(1) kv by simp
  have s: "fst ` set es \<subseteq> set A" using Cons.prems(2) by auto
  have q: "\<forall>kv\<in>set es. CHR ''='' \<notin> set (fst kv)" using Cons.prems(3) by simp
  have t: "tl (entries_of y ?e1) = tl (entries_of y ?e2)" if "CHR ''='' \<notin> set y" for y
    using entries_of_put_tl [OF k that] Cons.prems(5) [OF that] by simp
  have a: "entries_of y ?e1 = entries_of y ?e2"
    if "CHR ''='' \<notin> set y" "y \<in> set (k # D) \<or> y \<notin> set A" for y
  proof (cases "y = k")
    case True
    then show ?thesis
      using Cons.prems(5) [OF k] by (simp add: entries_of_put_same)
  next
    case False
    with that have "entries_of y e1 = entries_of y e2"
      using Cons.prems(4) [of y] by auto
    with False show ?thesis
      using entries_of_put_other [OF k that(1)] by simp
  qed
  have x: "x \<in> set (k # D) \<or> x \<notin> set A \<or> x \<in> fst ` set es"
    using Cons.prems(7) kv by auto
  have "entries_of x (install ?e1 es) = entries_of x (install ?e2 es)"
    by (rule Cons.IH [OF r s q a t Cons.prems(6) x])
  then show ?case
    unfolding kv install.simps v val_def by simp
qed

lemma install_entries_idem:
  assumes "refs_settled [] (map fst es) es" and "\<forall>kv\<in>set es. CHR ''='' \<notin> set (fst kv)"
    and "CHR ''='' \<notin> set k"
  shows "entries_of k (install (install e es) es) = entries_of k (install e es)"
proof -
  have "entries_of k (install e es) = entries_of k (install (install e es) es)"
  proof (rule install_agree [OF assms(1) _ assms(2) _ _ assms(3)])
    show "fst ` set es \<subseteq> set (map fst es)" by simp
    show "entries_of y e = entries_of y (install e es)"
      if "CHR ''='' \<notin> set y" "y \<in> set [] \<or> y \<notin> set (map fst es)" for y
      using that install_other [OF assms(2), of y e] by simp
    show "tl (entries_of y e) = tl (entries_of y (install e es))" if "CHR ''='' \<notin> set y" for y
      using install_tl [OF assms(2) that, of e] by simp
    show "k \<in> set [] \<or> k \<notin> set (map fst es) \<or> k \<in> fst ` set es" by auto
  qed
  then show ?thesis by simp
qed

lemma same_slot_trans: "same_slot x y \<Longrightarrow> same_slot y z \<Longrightarrow> same_slot x z"
  unfolding same_slot_def using entry_matches_unique by blast

lemma put_entry_slots:
  "CHR ''='' \<notin> set k \<Longrightarrow> entries_of k env \<noteq> [] \<Longrightarrow>
     list_all2 same_slot env (put_entry k (k @ CHR ''='' # v) env)"
proof (induction env)
  case Nil
  then show ?case by (simp add: entries_of_def)
next
  case (Cons ep env)
  have refl: "list_all2 same_slot env env"
    by (simp add: list_all2_refl same_slot_def)
  have m: "entry_matches k (k @ CHR ''='' # v)" unfolding entry_matches_split by blast
  show ?case
  proof (cases "entry_matches k ep")
    case True
    then have "same_slot ep (k @ CHR ''='' # v)"
      using m Cons.prems(1) unfolding same_slot_def by blast
    with True refl show ?thesis by simp
  next
    case False
    with Cons.prems have "entries_of k env \<noteq> []" by (simp add: entries_of_def)
    with Cons.IH Cons.prems(1) have "list_all2 same_slot env (put_entry k (k @ CHR ''='' # v) env)"
      by simp
    moreover have "same_slot ep ep" by (simp add: same_slot_def)
    ultimately show ?thesis using False by simp
  qed
qed

lemma install_slots:
  "\<forall>kv\<in>set es. CHR ''='' \<notin> set (fst kv) \<and> entries_of (fst kv) e \<noteq> [] \<Longrightarrow>
     list_all2 same_slot e (install e es)"
proof (induction es arbitrary: e)
  case Nil
  show ?case by (simp add: list_all2_refl same_slot_def)
next
  case (Cons kv es)
  obtain k v where kv: "kv = (k, v)" by (cases kv)
  from Cons.prems kv have k: "CHR ''='' \<notin> set k" "entries_of k e \<noteq> []" by auto
  let ?e = "put_entry k (k @ CHR ''='' # expand_spec (getenv e) v) e"
  have 1: "list_all2 same_slot e ?e" by (rule put_entry_slots [OF k])
  have "\<forall>kv\<in>set es. CHR ''='' \<notin> set (fst kv) \<and> entries_of (fst kv) ?e \<noteq> []"
    using Cons.prems entries_of_put_present [OF k(1)] by auto
  then have 2: "list_all2 same_slot ?e (install ?e es)" by (rule Cons.IH)
  have "list_all2 same_slot e (install ?e es)"
    using 1 2 by (rule list_all2_trans [rotated 1]) (rule same_slot_trans)
  then show ?case by (simp add: kv)
qed

lemma slots_entries_eq:
  "list_all2 same_slot a b \<Longrightarrow>
   (\<And>k. CHR ''='' \<notin> set k \<Longrightarrow> entries_of k a = entries_of k b) \<Longrightarrow> a = b"
proof (induction rule: list_all2_induct)
  case Nil
  show ?case by simp
next
  case (Cons x xs y ys)
  have xy: "x = y"
  proof (cases "x = y")
    case True
    then show ?thesis .
  next
    case False
    with Cons.hyps(1) obtain k where k: "CHR ''='' \<notin> set k" "entry_matches k x" "entry_matches k y"
      unfolding same_slot_def by blast
    from Cons.prems [OF k(1)] k(2,3) show ?thesis by (simp add: entries_of_def)
  qed
  have "entries_of k xs = entries_of k ys" if "CHR ''='' \<notin> set k" for k
    using Cons.prems [OF that] xy by (simp add: entries_of_def split: if_splits)
  with Cons.IH xy show ?case by simp
qed

lemma install_idem:
  assumes "refs_settled [] (map fst es) es" and "\<forall>kv\<in>set es. CHR ''='' \<notin> set (fst kv)"
  shows "install (install e es) es = install e es"
proof -
  have "\<forall>kv\<in>set es. CHR ''='' \<notin> set (fst kv) \<and> entries_of (fst kv) (install e es) \<noteq> []"
    using assms(2) install_present [OF assms(2), of _ e] by auto
  then have "list_all2 same_slot (install e es) (install (install e es) es)"
    by (rule install_slots)
  then have "install e es = install (install e es) es"
    by (rule slots_entries_eq) (simp add: install_entries_idem [OF assms])
  then show ?thesis by simp
qed

lemma set_trim_spec: "set (trim_spec s) \<subseteq> set s"
proof -
  have "set (trim_spec s) \<subseteq> set (dropWhile isspace s)"
    unfolding trim_spec_def using set_dropWhileD [of _ isspace "rev (dropWhile isspace s)"]
    by auto
  also have "\<dots> \<subseteq> set s" using set_dropWhileD by fastforce
  finally show ?thesis .
qed

lemma split_line_key:
  assumes "split_line l = Some (k, raw)"
  shows "k \<noteq> [] \<and> CHR ''='' \<notin> set k"
proof -
  define s0 where "s0 = trim_inplace (take (LINE_MAX - 1) (cstr l))"
  define s where "s = (if take 7 s0 = ''export '' then drop 7 s0 else s0)"
  define eq where "eq = length (takeWhile (\<lambda>c. c \<noteq> CHR ''='') s)"
  define keylen where "keylen = (if eq \<ge> LINE_MAX then LINE_MAX - 1 else eq)"
  from assms have k: "k = trim_inplace (take keylen s)" and ne: "k \<noteq> []"
    unfolding split_line_def Let_def s0_def [symmetric] s_def [symmetric] eq_def [symmetric]
      keylen_def [symmetric]
    by (auto split: if_splits)
  have "keylen \<le> eq" unfolding keylen_def by auto
  then have "take keylen s = take keylen (takeWhile (\<lambda>c. c \<noteq> CHR ''='') s)"
    unfolding eq_def by (metis min.absorb1 take_take takeWhile_eq_take)
  then have "set (take keylen s) \<subseteq> set (takeWhile (\<lambda>c. c \<noteq> CHR ''='') s)"
    by (metis set_take_subset)
  then have "CHR ''='' \<notin> set (take keylen s)"
    by (auto dest: set_takeWhileD)
  then have "CHR ''='' \<notin> set k"
    unfolding k trim_inplace_spec using set_trim_spec by fastforce
  with ne show ?thesis by simp
qed

lemma xstrdup_grant: "(\<And>n. M n) \<Longrightarrow> xstrdup M s = xstrdup grant s"
  by (simp add: xstrdup_def grant_def)

lemma parse_value_grant: "(\<And>n. M n) \<Longrightarrow> parse_value M raw = parse_value grant raw"
  unfolding parse_value_def by (simp only: xstrdup_grant [of M])

lemma line_entry_key: "line_entry l = Some (k, v) \<Longrightarrow> k \<noteq> [] \<and> CHR ''='' \<notin> set k"
  using split_line_key by (auto simp: line_entry_def split: option.splits)

lemma file_entries_keys: "\<forall>kv\<in>set (file_entries content). CHR ''='' \<notin> set (fst kv)"
  using line_entry_key by (auto simp: file_entries_def List.map_filter_def)

lemma load_lines_install:
  assumes "\<And>n. malloc_ok sys n" and "\<And>k v. setenv_ok sys k v"
  shows "load_lines sys ls n v e p =
          (0, v + int (length (List.map_filter line_entry ls)),
           install e (List.map_filter line_entry ls), p)"
proof (induction ls arbitrary: n v e)
  case Nil
  show ?case by (simp add: List.map_filter_simps)
next
  case (Cons l ls)
  show ?case
  proof (cases "split_line l")
    case None
    then have le: "line_entry l = None" by (simp add: line_entry_def)
    show ?thesis using None by (simp add: Cons.IH List.map_filter_simps le)
  next
    case (Some a)
    obtain k raw where a: "a = (k, raw)" by (cases a)
    obtain val where pv: "parse_value grant raw = Some val"
      using parse_value_granted [of grant raw] by (auto simp: grant_def)
    have pm: "parse_value (malloc_ok sys) raw = Some val"
      using parse_value_grant [of "malloc_ok sys" raw] assms(1) pv by simp
    have ev: "expand_vars (malloc_ok sys) e val = Some (expand_spec (getenv e) val)"
      by (rule expand_vars_granted) (use assms(1) in simp)
    have sv: "set_env_var sys e k (expand_spec (getenv e) val) =
        (put_entry k (k @ CHR ''='' # expand_spec (getenv e) val) e, 0)"
      using split_line_key [OF Some [unfolded a]] assms(2) by (simp add: set_env_var_def)
    have le: "line_entry l = Some (k, val)"
      using Some a pv by (simp add: line_entry_def)
    show ?thesis
      using Some a pm ev sv
      by (simp add: Cons.IH List.map_filter_simps le)
  qed
qed

section \<open>The status of a load\<close>

text \<open>
  \<open>load_dotenv\<close> returns \<open>0\<close>, \<open>-2\<close>, \<open>-3\<close> or \<open>-4\<close>. It returns \<open>-2\<close> only when the
  file has a line whose value could not be allocated by the parser, and does so at
  the first such line when the lines before it were read without a fatal error; \<open>-3\<close>
  only when the file has a line whose parsed value could not be expanded for want of
  memory, and likewise at the first such line; \<open>-4\<close> only when standard input is a
  terminal and the file could not be opened for appending or \<open>fprintf\<close> reported a
  failure, and whenever the collector, once called, returns a negative count. When no
  allocation fails and either standard input is no terminal or opening succeeds and
  \<open>fprintf\<close> reports none, it returns \<open>0\<close>, whatever the file holds, also when there is
  no file, and also when no text reaches the file.
\<close>

lemma load_dotenv_status_codes:
  "fst (load_dotenv sys fn w) \<in> {0, - 2, - 3, - 4}
   \<and> (fst (load_dotenv sys fn w) = - 2 \<longrightarrow>
        (\<exists>content. w_file w = Some content \<and>
           (\<exists>l\<in>set (file_lines content). \<exists>k raw. split_line l = Some (k, raw) \<and>
              parse_value (malloc_ok sys) raw = None)))
   \<and> (fst (load_dotenv sys fn w) = - 3 \<longrightarrow>
        (\<exists>content. w_file w = Some content \<and>
           (\<exists>l\<in>set (file_lines content). \<exists>k raw val env'. split_line l = Some (k, raw) \<and>
              parse_value (malloc_ok sys) raw = Some val \<and>
              expand_vars (malloc_ok sys) env' val = None)))
   \<and> (fst (load_dotenv sys fn w) = - 4 \<longrightarrow>
        isatty_stdin sys \<and> (\<not> fopen_append_ok sys \<or> (\<exists>t. \<not> fprintf_ok sys t)))
   \<and> (w_file w = Some content \<and> file_lines content = pre @ l # rest \<and>
        load_lines sys pre 0 0 (w_env w) (w_printed w) = (0, vs, e1, p1) \<and>
        split_line l = Some (k, raw) \<and> parse_value (malloc_ok sys) raw = None \<longrightarrow>
        fst (load_dotenv sys fn w) = - 2)
   \<and> (w_file w = Some content \<and> file_lines content = pre @ l # rest \<and>
        load_lines sys pre 0 0 (w_env w) (w_printed w) = (0, vs, e1, p1) \<and>
        split_line l = Some (k, raw) \<and> parse_value (malloc_ok sys) raw = Some val \<and>
        expand_vars (malloc_ok sys) e1 val = None \<longrightarrow>
        fst (load_dotenv sys fn w) = - 3)
   \<and> (read_file sys w = (0, 0, w1) \<and> isatty_stdin sys \<and>
        fgets 8 (w_stdin w1) = Some (answer, inp) \<and>
        (take 1 answer = ''y'' \<or> take 1 answer = ''Y'') \<and>
        fst (interactive_create_entries sys
               (w1\<lparr>w_printed := w_printed w1 @
                     [if w_file w = None then NoFileFound fn else NoneSet fn, AskCreate fn],
                   w_stdin := inp\<rparr>)) < 0 \<longrightarrow>
        fst (load_dotenv sys fn w) = - 4)
   \<and> ((\<forall>n. malloc_ok sys n) \<and>
        (\<not> isatty_stdin sys \<or> (fopen_append_ok sys \<and> (\<forall>t. fprintf_ok sys t))) \<longrightarrow>
        fst (load_dotenv sys fn w) = 0)"
proof -
  obtain st vs0 w0 where rf: "read_file sys w = (st, vs0, w0)"
    by (cases "read_file sys w")
  have st: "st \<in> {0, - 2, - 3}"
    using read_file_frame [OF rf] by simp
  have ice: "0 \<le> fst (interactive_create_entries sys x) \<or>
     (fst (interactive_create_entries sys x) = - 1 \<and>
      (\<not> fopen_append_ok sys \<or> (\<exists>t. \<not> fprintf_ok sys t)))" for x
    by (rule interactive_create_entries_result)
  have alts: "fst (load_dotenv sys fn w) = st \<or>
     (st = 0 \<and> isatty_stdin sys \<and> fst (load_dotenv sys fn w) = 0) \<or>
     (st = 0 \<and> isatty_stdin sys \<and> fst (load_dotenv sys fn w) = - 4 \<and>
      (\<not> fopen_append_ok sys \<or> (\<exists>t. \<not> fprintf_ok sys t)))"
  proof (cases "st = 0 \<and> vs0 = 0 \<and> isatty_stdin sys")
    case False
    then show ?thesis by (auto simp: load_dotenv_def rf)
  next
    case True
    show ?thesis
    proof (cases "fgets 8 (w_stdin w0)")
      case None
      with True show ?thesis by (simp add: load_dotenv_def rf Let_def)
    next
      case (Some r)
      obtain answer inp where r: "r = (answer, inp)" by (cases r)
      show ?thesis
      proof (cases "take 1 answer = ''y'' \<or> take 1 answer = ''Y''")
        case no: False
        with True Some r show ?thesis by (simp add: load_dotenv_def rf Let_def)
      next
        case yes: True
        define x where "x = w0\<lparr>w_printed := w_printed w0 @
            [if w_file w = None then NoFileFound fn else NoneSet fn, AskCreate fn], w_stdin := inp\<rparr>"
        obtain added w3 where i: "interactive_create_entries sys x = (added, w3)"
          by (cases "interactive_create_entries sys x")
        have l: "fst (load_dotenv sys fn w) = (if added < 0 then - 4 else 0)"
          using True Some r yes i unfolding x_def
          by (simp add: load_dotenv_def rf Let_def)
        from ice [of x] i l True show ?thesis by auto
      qed
    qed
  qed
  have c1: "fst (load_dotenv sys fn w) \<in> {0, - 2, - 3, - 4}"
    using alts st by auto
  have fatal: "fst (load_dotenv sys fn w) = st" if "st \<noteq> 0"
    using that by (simp add: load_dotenv_def rf)
  have orig: "st = fst (load_dotenv sys fn w)" if "fst (load_dotenv sys fn w) \<in> {- 2, - 3}"
    using that alts by auto
  have c2: "\<exists>content. w_file w = Some content \<and>
           (\<exists>l\<in>set (file_lines content). \<exists>k raw. split_line l = Some (k, raw) \<and>
              parse_value (malloc_ok sys) raw = None)"
    if "fst (load_dotenv sys fn w) = - 2"
  proof -
    from that orig have s: "st = - 2" by simp
    with rf obtain content where c: "w_file w = Some content"
      by (cases "w_file w") (auto simp: read_file_def)
    obtain v' e' p' where
      "load_lines sys (file_lines content) 0 0 (w_env w) (w_printed w) = (st, v', e', p')"
      using rf c by (auto simp: read_file_def split: prod.splits)
    from load_lines_fatal [OF this] s c show ?thesis by simp
  qed
  have c3: "\<exists>content. w_file w = Some content \<and>
           (\<exists>l\<in>set (file_lines content). \<exists>k raw val env'. split_line l = Some (k, raw) \<and>
              parse_value (malloc_ok sys) raw = Some val \<and>
              expand_vars (malloc_ok sys) env' val = None)"
    if "fst (load_dotenv sys fn w) = - 3"
  proof -
    from that orig have s: "st = - 3" by simp
    with rf obtain content where c: "w_file w = Some content"
      by (cases "w_file w") (auto simp: read_file_def)
    obtain v' e' p' where
      "load_lines sys (file_lines content) 0 0 (w_env w) (w_printed w) = (st, v', e', p')"
      using rf c by (auto simp: read_file_def split: prod.splits)
    from load_lines_fatal [OF this] s c show ?thesis by simp
  qed
  have c4: "isatty_stdin sys \<and> (\<not> fopen_append_ok sys \<or> (\<exists>t. \<not> fprintf_ok sys t))"
    if "fst (load_dotenv sys fn w) = - 4"
    using that alts st by auto
  have c5: "fst (load_dotenv sys fn w) = - 2"
    if "w_file w = Some content" "file_lines content = pre @ l # rest"
      "load_lines sys pre 0 0 (w_env w) (w_printed w) = (0, vs, e1, p1)"
      "split_line l = Some (k, raw)" "parse_value (malloc_ok sys) raw = None"
  proof -
    have "fst (load_lines sys (pre @ l # rest) 0 0 (w_env w) (w_printed w)) = - 2"
      using that(3-5) by (simp add: load_lines_append)
    then have "st = - 2"
      using rf that(1,2) by (auto simp: read_file_def split: prod.splits)
    with fatal show ?thesis by simp
  qed
  have c6: "fst (load_dotenv sys fn w) = - 3"
    if "w_file w = Some content" "file_lines content = pre @ l # rest"
      "load_lines sys pre 0 0 (w_env w) (w_printed w) = (0, vs, e1, p1)"
      "split_line l = Some (k, raw)" "parse_value (malloc_ok sys) raw = Some val"
      "expand_vars (malloc_ok sys) e1 val = None"
  proof -
    have "fst (load_lines sys (pre @ l # rest) 0 0 (w_env w) (w_printed w)) = - 3"
      using that(3-6) by (simp add: load_lines_append)
    then have "st = - 3"
      using rf that(1,2) by (auto simp: read_file_def split: prod.splits)
    with fatal show ?thesis by simp
  qed
  have c7: "fst (load_dotenv sys fn w) = - 4"
    if "read_file sys w = (0, 0, w1)" "isatty_stdin sys"
      "fgets 8 (w_stdin w1) = Some (answer, inp)"
      "take 1 answer = ''y'' \<or> take 1 answer = ''Y''"
      "fst (interactive_create_entries sys
               (w1\<lparr>w_printed := w_printed w1 @
                     [if w_file w = None then NoFileFound fn else NoneSet fn, AskCreate fn],
                   w_stdin := inp\<rparr>)) < 0"
  proof -
    define x where "x = w1\<lparr>w_printed := w_printed w1 @
        [if w_file w = None then NoFileFound fn else NoneSet fn, AskCreate fn], w_stdin := inp\<rparr>"
    obtain added w3 where i: "interactive_create_entries sys x = (added, w3)"
      by (cases "interactive_create_entries sys x")
    from that(5) i have "added < 0" unfolding x_def by simp
    with that(1-4) i show ?thesis
      unfolding x_def by (simp add: load_dotenv_def Let_def)
  qed
  have c8: "fst (load_dotenv sys fn w) = 0"
    if "\<forall>n. malloc_ok sys n"
      "\<not> isatty_stdin sys \<or> (fopen_append_ok sys \<and> (\<forall>t. fprintf_ok sys t))"
  proof -
    have "st = 0"
    proof (cases "w_file w")
      case None
      with rf show ?thesis by (simp add: read_file_def)
    next
      case (Some content)
      have "fst (load_lines sys (file_lines content) 0 0 (w_env w) (w_printed w)) = 0"
        by (rule load_lines_granted) (use that(1) in simp)
      with rf Some show ?thesis by (auto simp: read_file_def split: prod.splits)
    qed
    with alts that(2) show ?thesis by auto
  qed
  from c1 c2 c3 c4 c5 c6 c7 c8 show ?thesis by blast
qed

section \<open>A reference whose name has an equals sign\<close>

text \<open>
  The file holds the two lines \<open>X=${A=B}\<close> and \<open>A=B=1\<close>. Its reference \<open>${A=B}\<close> reads
  the variable \<open>A\<close>, which the file assigns on the line after, so the reference looks
  ahead. The first load leaves \<open>X\<close> empty and sets \<open>A\<close> to \<open>B=1\<close>; the second load finds
  the entry \<open>A=B=1\<close> for the name \<open>A=B\<close> and sets \<open>X\<close> to \<open>1\<close>. A line with a NUL byte
  counts up to that byte: \<open>A=1\<close>, NUL, \<open>junk\<close> sets \<open>A\<close> to \<open>1\<close>, and a line that begins
  with NUL is skipped.
\<close>

lemma load_dotenv_name_with_eq:
  "no_forward_refs (''X=${A=B}'' @ [CHR 0x0A] @ ''A=B=1'') = False
   \<and> w_env (snd (load_dotenv sys_pipe ''.env''
        (world0 (Some (''X=${A=B}'' @ [CHR 0x0A] @ ''A=B=1'')) []))) = [''X='', ''A=B=1'']
   \<and> w_env (snd (load_dotenv sys_pipe ''.env'' (snd (load_dotenv sys_pipe ''.env''
        (world0 (Some (''X=${A=B}'' @ [CHR 0x0A] @ ''A=B=1'')) []))))) = [''X=1'', ''A=B=1'']
   \<and> split_line (''A=1'' @ [CHR 0x00] @ ''junk'' @ [CHR 0x0A]) = Some (''A'', ''1'')
   \<and> split_line ([CHR 0x00] @ ''A=1'' @ [CHR 0x0A]) = None"
  by code_simp

section \<open>Claims about the expander\<close>

text \<open>
  C2, as the claim states it, fails: the store holds the one variable \<open>A\<close>, with the
  value \<open>B=c\<close>, so it has no variable named \<open>A=B\<close>; yet \<open>x${A=B}y\<close> expands to
  \<open>xcy\<close> and not to \<open>xy\<close>, since \<open>getenv\<close> matches the text \<open>A=B=\<close> with the entry.
\<close>

theorem expand_vars_name_with_eq_counterexample:
  "store_value [''A=B=c''] ''A'' = Some ''B=c''
   \<and> store_value [''A=B=c''] ''A=B'' = None
   \<and> expand_vars grant [''A=B=c''] ''x${A=B}y'' = Some ''xcy''"
  by code_simp

text \<open>
  C2, amended. When no allocation fails, \<open>expand_vars\<close> returns the single
  left-to-right pass of the specification over what \<open>getenv\<close> finds, for every input
  and every environment. \<open>getenv\<close> finds, for a name that is not empty and has no
  \<open>=\<close>, the current value of that name in the store. So a reference \<open>${name}\<close> that
  stands after text without \<open>$\<close> is replaced by what \<open>getenv\<close> finds for the name
  (nothing when it finds nothing), which for such a name is its value in the store; the
  value is put into the output as it is and the scan goes on behind the \<open>}\<close>; an input
  without any \<open>}\<close> comes back unchanged; and \<open>${X}\<close> with \<open>X\<close> bound to \<open>${Y}\<close>
  gives \<open>${Y}\<close>.
\<close>

theorem expand_vars_single_pass:
  assumes "\<forall>n. M n"
  shows "expand_vars M env s = Some (expand_spec (getenv env) s)
    \<and> (name \<noteq> [] \<and> CHR ''='' \<notin> set name \<longrightarrow> getenv env name = store_value env name)
    \<and> (CHR ''$'' \<notin> set pre \<and> CHR ''}'' \<notin> set name \<longrightarrow>
         expand_vars M env (pre @ ''${'' @ name @ ''}'' @ rest) =
           Some (pre @ (case getenv env name of None \<Rightarrow> [] | Some v \<Rightarrow> v) @
                 expand_spec (getenv env) rest))
    \<and> (CHR ''$'' \<notin> set pre \<and> CHR ''}'' \<notin> set name \<and> name \<noteq> [] \<and> CHR ''='' \<notin> set name \<longrightarrow>
         expand_vars M env (pre @ ''${'' @ name @ ''}'' @ rest) =
           Some (pre @ (case store_value env name of None \<Rightarrow> [] | Some v \<Rightarrow> v) @
                 expand_spec (getenv env) rest))
    \<and> (CHR ''}'' \<notin> set s \<longrightarrow> expand_vars M env s = Some s)
    \<and> (store_value env ''X'' = Some ''${Y}'' \<longrightarrow> expand_vars M env ''${X}'' = Some ''${Y}'')"
proof -
  have ref: "expand_spec look (''${'' @ name @ ''}'' @ rest) =
          (case look name of None \<Rightarrow> [] | Some v \<Rightarrow> v) @ expand_spec look rest"
    if "CHR ''}'' \<notin> set name" for look
  proof -
    have t: "takeWhile (\<lambda>c. c \<noteq> CHR ''}'') (name @ CHR ''}'' # rest) = name"
      using that by (auto simp add: takeWhile_tail takeWhile_eq_all_conv [THEN iffD2])
    have d: "dropWhile (\<lambda>c. c \<noteq> CHR ''}'') (name @ CHR ''}'' # rest) = CHR ''}'' # rest"
      using that by (auto simp add: dropWhile_append3 dropWhile_eq_Nil_conv [THEN iffD2])
    show ?thesis
      using expand_spec_ref [of "name @ CHR ''}'' # rest" look]
      by (simp only: t d append.simps list.sel) simp
  qed
  have 1: "expand_vars M env s = Some (expand_spec (getenv env) s)" for s
    by (rule expand_vars_granted [OF assms])
  have 2: "getenv env name = store_value env name" if "name \<noteq> []" "CHR ''='' \<notin> set name"
    using that by (rule getenv_store_value)
  have 3: "expand_vars M env (pre @ ''${'' @ name @ ''}'' @ rest) =
           Some (pre @ (case getenv env name of None \<Rightarrow> [] | Some v \<Rightarrow> v) @
                 expand_spec (getenv env) rest)"
    if "CHR ''$'' \<notin> set pre" "CHR ''}'' \<notin> set name"
    unfolding 1 using that ref [OF that(2), of "getenv env"]
    by (simp add: expand_spec_prefix del: expand_spec.simps)
  have 4: "expand_vars M env (pre @ ''${'' @ name @ ''}'' @ rest) =
           Some (pre @ (case store_value env name of None \<Rightarrow> [] | Some v \<Rightarrow> v) @
                 expand_spec (getenv env) rest)"
    if "CHR ''$'' \<notin> set pre" "CHR ''}'' \<notin> set name" "name \<noteq> []" "CHR ''='' \<notin> set name"
    using 3 [OF that(1,2)] 2 [OF that(3,4)] by simp
  have 5: "expand_vars M env s = Some s" if "CHR ''}'' \<notin> set s"
    unfolding 1 using that by (simp add: expand_spec_no_close)
  have x: "getenv env ''X'' = store_value env ''X''"
    by (rule getenv_store_value) simp_all
  have 6: "expand_vars M env ''${X}'' = Some ''${Y}''" if "store_value env ''X'' = Some ''${Y}''"
    unfolding 1 using that x by (simp add: split_at_close_eq)
  from 1 2 3 4 5 6 show ?thesis by blast
qed

theorem expand_vars_single_pass_witness:
  "(\<forall>n. grant n)
   \<and> expand_vars grant [''X=${Y}'', ''Y=v''] ''a${X}b${Y'' = Some ''a${Y}b${Y''
   \<and> expand_vars grant [''X=${Y}'', ''Y=v''] ''${Y}/${Z}'' = Some ''v/''"
proof -
  have g: "\<forall>n. grant n" by (simp add: grant_def)
  have l: "getenv [''X=${Y}'', ''Y=v''] ''X'' = Some ''${Y}''"
    "getenv [''X=${Y}'', ''Y=v''] ''Y'' = Some ''v''"
    "getenv [''X=${Y}'', ''Y=v''] ''Z'' = None"
    by (simp_all add: getenv_def entry_matches_def)
  have e: "expand_vars grant [''X=${Y}'', ''Y=v''] ''a${X}b${Y'' = Some ''a${Y}b${Y''
    \<and> expand_vars grant [''X=${Y}'', ''Y=v''] ''${Y}/${Z}'' = Some ''v/''"
    using expand_vars_single_pass [OF g, of "[''X=${Y}'', ''Y=v'']" "''a${X}b${Y''", THEN conjunct1]
      expand_vars_single_pass [OF g, of "[''X=${Y}'', ''Y=v'']" "''${Y}/${Z}''", THEN conjunct1]
    by (simp add: split_at_close_eq l)
  from g e show ?thesis by blast
qed

section \<open>Claims about the value parser\<close>

text \<open>
  C3. When the first byte of the raw value that is not whitespace is a quote \<open>Q\<close>
  (double or single), \<open>parse_value\<close> returns the text up to the next \<open>Q\<close> that no
  backslash precedes, each backslash and the byte after it replaced by that byte, cut
  at \<open>LINE_MAX - 1\<close> bytes; it is NULL only when the copy cannot be allocated. So a
  body without backslash and without \<open>Q\<close> comes back as it is, a \<open>#\<close> in it included,
  whatever follows the closing quote; and without a closing quote the result is the
  text up to the end of the input or the ceiling.
\<close>

theorem parse_value_quoted:
  assumes "dropWhile isspace raw = Q # rest" and "Q = CHR 0x22 \<or> Q = CHR 0x27"
  shows "parse_value M raw =
           (if M (length (take (LINE_MAX - 1) (quoted_literal Q rest)) + 1)
            then Some (take (LINE_MAX - 1) (quoted_literal Q rest)) else None)
    \<and> (Q \<notin> set body \<and> CHR 0x5C \<notin> set body \<and> length body < LINE_MAX \<and>
         rest = body @ Q # tail \<and> M (length body + 1) \<longrightarrow> parse_value M raw = Some body)
    \<and> (Q \<notin> set rest \<and> CHR 0x5C \<notin> set rest \<and> M (length (take (LINE_MAX - 1) rest) + 1) \<longrightarrow>
         parse_value M raw = Some (take (LINE_MAX - 1) rest))
    \<and> parse_value (\<lambda>_. True) [CHR 0x22, CHR ''a'', CHR ''#'', CHR ''b'', CHR 0x22] = Some ''a#b''
    \<and> parse_value (\<lambda>_. True) [CHR 0x22, CHR ''a'', CHR 0x5C, CHR 0x22, CHR ''b'', CHR 0x22] =
         Some [CHR ''a'', CHR 0x22, CHR ''b'']"
proof -
  have 1: "parse_value M raw = xstrdup M (take (LINE_MAX - 1) (quoted_literal Q rest))"
    using assms by (rule parse_value_quoted_eq)
  have 2: "parse_value (\<lambda>_. True) [CHR 0x22, CHR ''a'', CHR ''#'', CHR ''b'', CHR 0x22] = Some ''a#b''"
    by (subst parse_value_quoted_eq [of _ "CHR 0x22" "[CHR ''a'', CHR ''#'', CHR ''b'', CHR 0x22]"])
      (simp_all add: isspace_def xstrdup_def LINE_MAX_def)
  have 3: "parse_value (\<lambda>_. True) [CHR 0x22, CHR ''a'', CHR 0x5C, CHR 0x22, CHR ''b'', CHR 0x22] =
         Some [CHR ''a'', CHR 0x22, CHR ''b'']"
    by (subst parse_value_quoted_eq
          [of _ "CHR 0x22" "[CHR ''a'', CHR 0x5C, CHR 0x22, CHR ''b'', CHR 0x22]"])
      (simp_all add: isspace_def xstrdup_def LINE_MAX_def)
  show ?thesis
    unfolding 1 using 2 3
    by (auto simp: xstrdup_def quoted_literal_closed quoted_literal_open)
qed

theorem parse_value_quoted_witness:
  "dropWhile isspace ('' '' @ [CHR 0x27] @ ''a#'' @ [CHR 0x5C, CHR 0x27] @ ''b'' @ [CHR 0x27] @ '' #c'') =
     CHR 0x27 # (''a#'' @ [CHR 0x5C, CHR 0x27] @ ''b'' @ [CHR 0x27] @ '' #c'')
   \<and> parse_value (\<lambda>_. True) ('' '' @ [CHR 0x27] @ ''a#'' @ [CHR 0x5C, CHR 0x27] @ ''b'' @ [CHR 0x27] @ '' #c'') =
     Some (''a#'' @ [CHR 0x27] @ ''b'')"
proof -
  have h: "dropWhile isspace ('' '' @ [CHR 0x27] @ ''a#'' @ [CHR 0x5C, CHR 0x27] @ ''b'' @ [CHR 0x27] @ '' #c'') =
     CHR 0x27 # (''a#'' @ [CHR 0x5C, CHR 0x27] @ ''b'' @ [CHR 0x27] @ '' #c'')"
    by (simp add: isspace_def)
  show ?thesis
    using h parse_value_quoted [OF h, of "\<lambda>_. True"]
    by (simp add: LINE_MAX_def)
qed

text \<open>
  C4. When the raw value is not quoted (the first byte that is not whitespace is no
  quote) and fits the line buffer, as every value that \<open>load_dotenv\<close> passes does
  (\<open>split_line_value_length\<close>),
  \<open>parse_value\<close> returns the text before the first \<open>#\<close> (all of it when there is none)
  with the whitespace at both ends removed; it is NULL only when the copy cannot be
  allocated. So a value without \<open>#\<close> comes back trimmed and otherwise unchanged, and
  \<open>a # b\<close> gives \<open>a\<close>.
\<close>

theorem parse_value_unquoted:
  assumes "length raw < LINE_MAX"
    and "take 1 (dropWhile isspace raw) \<notin> {[CHR 0x22], [CHR 0x27]}"
  shows "parse_value M raw =
           (if M (length (trim_spec (takeWhile (\<lambda>c. c \<noteq> CHR ''#'') raw)) + 1)
            then Some (trim_spec (takeWhile (\<lambda>c. c \<noteq> CHR ''#'') raw)) else None)
    \<and> (CHR ''#'' \<notin> set raw \<longrightarrow>
         parse_value M raw = (if M (length (trim_spec raw) + 1) then Some (trim_spec raw) else None))
    \<and> parse_value (\<lambda>_. True) ''a # b'' = Some ''a''"
proof -
  have 1: "parse_value M raw = xstrdup M (trim_spec (takeWhile (\<lambda>c. c \<noteq> CHR ''#'') raw))"
    using assms by (rule parse_value_unquoted_eq)
  have 2: "parse_value M raw = xstrdup M (trim_spec raw)" if "CHR ''#'' \<notin> set raw"
  proof -
    have "takeWhile (\<lambda>c. c \<noteq> CHR ''#'') raw = raw"
      using that by (auto simp add: takeWhile_eq_all_conv [THEN iffD2])
    with 1 show ?thesis by simp
  qed
  have l: "length ''a # b'' < LINE_MAX"
    by (simp add: LINE_MAX_def)
  have q: "take 1 (dropWhile isspace ''a # b'') \<notin> {[CHR 0x22], [CHR 0x27]}"
    by (simp add: isspace_def)
  have 3: "parse_value (\<lambda>_. True) ''a # b'' = Some ''a''"
    unfolding parse_value_unquoted_eq [OF l q]
    by (simp add: isspace_def xstrdup_def trim_spec_def)
  from 1 2 3 show ?thesis
    unfolding xstrdup_def by blast
qed

theorem parse_value_unquoted_witness:
  "length ''  x y  # z '' < LINE_MAX
   \<and> take 1 (dropWhile isspace ''  x y  # z '') \<notin> {[CHR 0x22], [CHR 0x27]}
   \<and> parse_value (\<lambda>_. True) ''  x y  # z '' = Some ''x y''"
proof -
  have h1: "length ''  x y  # z '' < LINE_MAX" by (simp add: LINE_MAX_def)
  have h2: "take 1 (dropWhile isspace ''  x y  # z '') \<notin> {[CHR 0x22], [CHR 0x27]}"
    by (simp add: isspace_def)
  show ?thesis
    using h1 h2 parse_value_unquoted [OF h1 h2, of "\<lambda>_. True"]
    by (simp add: trim_spec_def isspace_def)
qed

section \<open>Claims about the splitter\<close>

text \<open>
  C5. For a variable with a non-empty value and a non-empty delimiter string, when no
  allocation fails: \<open>get_env\<close> returns an array whose first slots point to the
  partitions of the value at every delimiter byte, each trimmed, those that are empty
  after trimming left out, in their order; and the count it reports is their number.
  Splitting \<open>a, b ,c,, \<close> at \<open>,\<close> gives \<open>a\<close>, \<open>b\<close>, \<open>c\<close>.
\<close>

theorem get_env_split:
  assumes "getenv env key = Some v" and "v \<noteq> []" and "delim \<noteq> []" and "\<forall>n. M n"
  shows "(\<exists>arr. get_env M env key (Some delim) = (Some arr, int (length (split_spec delim v))) \<and>
           take (length (split_spec delim v)) arr = map Ptr (split_spec delim v))
    \<and> split_spec '','' ''a, b ,c,, '' = [''a'', ''b'', ''c'']"
proof -
  have "\<exists>arr. split_loop M delim v (replicate 10 Uninit) 10 0 =
            Some (arr, 0 + length (split_spec delim v)) \<and>
         take (0 + length (split_spec delim v)) arr =
            take 0 (replicate 10 Uninit) @ map Ptr (split_spec delim v)"
    by (rule split_loop_granted) (use assms in simp_all)
  moreover have "split_spec '','' ''a, b ,c,, '' = [''a'', ''b'', ''c'']"
    by (simp add: split_spec_def trim_spec_def isspace_def)
  ultimately show ?thesis
    using assms by (auto simp: get_env_def xstrdup_def)
qed

theorem get_env_split_witness:
  "getenv [''K=a, b ,c,, ''] ''K'' = Some ''a, b ,c,, '' \<and> ''a, b ,c,, '' \<noteq> [] \<and> '','' \<noteq> []
   \<and> (\<forall>n. (\<lambda>_. True) (n::nat))
   \<and> (\<exists>arr. get_env (\<lambda>_. True) [''K=a, b ,c,, ''] ''K'' (Some '','') = (Some arr, 3) \<and>
          take 3 arr = [Ptr ''a'', Ptr ''b'', Ptr ''c''])"
proof -
  have e: "split_spec '','' ''a, b ,c,, '' = [''a'', ''b'', ''c'']"
    by (simp add: split_spec_def trim_spec_def isspace_def)
  have h: "getenv [''K=a, b ,c,, ''] ''K'' = Some ''a, b ,c,, ''"
    by (simp add: getenv_def entry_matches_def)
  show ?thesis
    using h get_env_split [OF h, of "'',''" "\<lambda>_. True"]
    unfolding e by (simp add: numeral_3_eq_3)
qed

text \<open>
  C9. Whenever \<open>get_env\<close> returns an array, whatever the allocator does and whether the
  delimiter is NULL, empty or not, the count \<open>n\<close> it reports is not negative, slot
  \<open>n\<close> lies inside the array, and it holds NULL.
\<close>

theorem get_env_null_terminated:
  assumes "get_env M env key delim = (Some arr, n)"
  shows "0 \<le> n \<and> nat n < length arr \<and> arr ! nat n = Null"
proof -
  have "n0 < length a \<and> a ! n0 = Null"
    if "split_loop M d v (replicate 10 Uninit) 10 0 = Some (a, n0)" for d v a n0
    using split_loop_terminated [OF that] by simp
  then show ?thesis
    using assms
    by (auto simp: get_env_def split: option.splits if_splits)
qed

theorem get_env_null_terminated_witness:
  "get_env (\<lambda>_. True) [''K= Jaehoon Song ''] ''K'' None = (Some [Ptr ''Jaehoon Song'', Null], 1)
   \<and> (0::int) \<le> 1 \<and> nat 1 < length [Ptr ''Jaehoon Song'', Null]
   \<and> [Ptr ''Jaehoon Song'', Null] ! nat 1 = Null"
proof -
  have h: "get_env (\<lambda>_. True) [''K= Jaehoon Song ''] ''K'' None =
             (Some [Ptr ''Jaehoon Song'', Null], 1)"
    by (simp add: get_env_def getenv_def entry_matches_def trim_string_copy_eq trim_spec_def
        isspace_def)
  show ?thesis
    using h get_env_null_terminated [OF h] by simp
qed

text \<open>
  C10. For a variable with a non-empty value of which every partition at the bytes of
  a non-empty delimiter string is empty after trimming, as \<open>  ,  \<close> split at \<open>,\<close>: when
  the working copy and the array can be allocated, \<open>get_env\<close> returns an array, not
  NULL, with NULL in its first slot, and reports the count \<open>0\<close>.
\<close>

theorem get_env_all_blank:
  assumes "getenv env key = Some v" and "v \<noteq> []" and "delim \<noteq> []"
    and "\<forall>t\<in>set (partitions delim v). trim_spec t = []"
    and "M (length v + 1)" and "M (sizeof_ptr * 10)"
  shows "get_env M env key (Some delim) = (Some ((replicate 10 Uninit)[0 := Null]), 0)
    \<and> (replicate 10 Uninit)[0 := Null] ! 0 = Null"
proof -
  have "split_spec delim v = []"
    using assms(4) by (simp add: split_spec_def filter_empty_conv)
  then show ?thesis
    using assms by (simp add: get_env_def xstrdup_def split_loop_empty)
qed

theorem get_env_all_blank_witness:
  "getenv [''K=  ,  ''] ''K'' = Some ''  ,  '' \<and> ''  ,  '' \<noteq> [] \<and> '','' \<noteq> []
   \<and> map trim_spec (partitions '','' ''  ,  '') = [[], []]
   \<and> get_env (\<lambda>_. True) [''K=  ,  ''] ''K'' (Some '','') =
       (Some (Null # replicate 9 Uninit), 0)"
proof -
  have h: "\<forall>t\<in>set (partitions '','' ''  ,  ''). trim_spec t = []"
    by (simp add: trim_spec_def isspace_def)
  have g: "getenv [''K=  ,  ''] ''K'' = Some ''  ,  ''"
    by (simp add: getenv_def entry_matches_def)
  show ?thesis
    using h g get_env_all_blank [OF g _ _ h, of "\<lambda>_. True"]
    by (simp add: numeral_eq_Suc trim_spec_def isspace_def)
qed

section \<open>Claims about the loader and the interactive collector\<close>

text \<open>
  C1. The collector is given the line \<open>  A=1  \<close> (two blanks on each side) and then
  an empty line, with a file that does not exist yet. The line is accepted and counted,
  \<open>A\<close> is set to \<open>1\<close>, and the file receives \<open>A=1\<close> and a newline: the trimmed copy
  \<open>tmp\<close>, not the line as it was typed.
\<close>

theorem interactive_appends_trimmed:
  "(case interactive_create_entries sys_tty (world0 None (''  A=1  '' @ [CHR 0x0A, CHR 0x0A])) of
      (added, w) \<Rightarrow> (added, w_file w, getenv (w_env w) ''A'', w_stdin w)) =
     (1, Some (''A=1'' @ [CHR 0x0A]), Some ''1'', [])
   \<and> trim_inplace ''  A=1  '' = ''A=1''"
  by code_simp

text \<open>
  C6. Standard input is a terminal and there is no file; the user answers \<open>y\<close>, types
  \<open>A=1\<close> and then an empty line; the file can be opened for appending, but it is on a
  device that takes no data, so \<open>fprintf\<close> fills the buffer of the stream and the write
  fails at \<open>fflush\<close>. The append has failed: the file is created and stays empty. Yet
  \<open>load_dotenv\<close> returns \<open>0\<close>, not \<open>-4\<close>, and reports that one entry was added to the
  file. The same run with \<open>fprintf\<close> reporting the failure returns \<open>-4\<close>, and so does a run
  where the file cannot be opened.
\<close>

theorem load_dotenv_write_failure_unreported:
  "isatty_stdin sys_full = True \<and> fopen_append_ok sys_full = True
   \<and> fprintf_ok sys_full (''A=1'' @ [CHR 0x0A]) = True
   \<and> fflush_ok sys_full (''A=1'' @ [CHR 0x0A]) = False
   \<and> fst (load_dotenv sys_full ''.env''
          (world0 None (''y'' @ [CHR 0x0A] @ ''A=1'' @ [CHR 0x0A, CHR 0x0A]))) = 0
   \<and> w_file (snd (load_dotenv sys_full ''.env''
          (world0 None (''y'' @ [CHR 0x0A] @ ''A=1'' @ [CHR 0x0A, CHR 0x0A])))) = Some []
   \<and> w_printed (snd (load_dotenv sys_full ''.env''
          (world0 None (''y'' @ [CHR 0x0A] @ ''A=1'' @ [CHR 0x0A, CHR 0x0A])))) =
        [NoFileFound ''.env'', AskCreate ''.env'', EnterPairs, Prompt, Prompt, Added 1 ''.env'']
   \<and> getenv (w_env (snd (load_dotenv sys_full ''.env''
          (world0 None (''y'' @ [CHR 0x0A] @ ''A=1'' @ [CHR 0x0A, CHR 0x0A]))))) ''A'' = Some ''1''
   \<and> fst (load_dotenv (sys_tty\<lparr>fprintf_ok := (\<lambda>text. False)\<rparr>) ''.env''
          (world0 None (''y'' @ [CHR 0x0A] @ ''A=1'' @ [CHR 0x0A, CHR 0x0A]))) = - 4
   \<and> fst (load_dotenv (sys_tty\<lparr>fopen_append_ok := False\<rparr>) ''.env''
          (world0 None (''y'' @ [CHR 0x0A] @ ''A=1'' @ [CHR 0x0A, CHR 0x0A]))) = - 4"
  by code_simp

text \<open>
  C7, as the claim states it, fails: standard input is a terminal, there is no file, so
  no entry was set, and the user answers \<open>n\<close> to the question and then types \<open>A=1\<close>.
  \<open>load_dotenv\<close> returns \<open>0\<close> without calling the collector: the file is not created,
  \<open>A=1\<close> stays unread, the collector's banner is not printed and \<open>A\<close> is not set,
  while the collector on the same input would have created the file and set \<open>A\<close>.
\<close>

theorem load_dotenv_declined_counterexample:
  "isatty_stdin sys_tty
   \<and> fst (read_file sys_tty (world0 None (''n'' @ [CHR 0x0A] @ ''A=1'' @ [CHR 0x0A, CHR 0x0A]))) = 0
   \<and> fst (snd (read_file sys_tty (world0 None (''n'' @ [CHR 0x0A] @ ''A=1'' @ [CHR 0x0A, CHR 0x0A])))) = 0
   \<and> fst (load_dotenv sys_tty ''.env''
          (world0 None (''n'' @ [CHR 0x0A] @ ''A=1'' @ [CHR 0x0A, CHR 0x0A]))) = 0
   \<and> w_file (snd (load_dotenv sys_tty ''.env''
          (world0 None (''n'' @ [CHR 0x0A] @ ''A=1'' @ [CHR 0x0A, CHR 0x0A])))) = None
   \<and> w_stdin (snd (load_dotenv sys_tty ''.env''
          (world0 None (''n'' @ [CHR 0x0A] @ ''A=1'' @ [CHR 0x0A, CHR 0x0A])))) =
        ''A=1'' @ [CHR 0x0A, CHR 0x0A]
   \<and> w_printed (snd (load_dotenv sys_tty ''.env''
          (world0 None (''n'' @ [CHR 0x0A] @ ''A=1'' @ [CHR 0x0A, CHR 0x0A])))) =
        [NoFileFound ''.env'', AskCreate ''.env'']
   \<and> getenv (w_env (snd (load_dotenv sys_tty ''.env''
          (world0 None (''n'' @ [CHR 0x0A] @ ''A=1'' @ [CHR 0x0A, CHR 0x0A]))))) ''A'' = None
   \<and> fst (interactive_create_entries sys_tty (world0 None (''A=1'' @ [CHR 0x0A, CHR 0x0A]))) = 1
   \<and> w_file (snd (interactive_create_entries sys_tty
          (world0 None (''A=1'' @ [CHR 0x0A, CHR 0x0A])))) = Some (''A=1'' @ [CHR 0x0A])
   \<and> getenv (w_env (snd (interactive_create_entries sys_tty
          (world0 None (''A=1'' @ [CHR 0x0A, CHR 0x0A]))))) ''A'' = Some ''1''"
  by code_simp

text \<open>
  C7, amended. Reading the file leaves standard input and the file as they were and
  prints nothing but warnings about entries that could not be set. When the reading
  ended with a fatal error, or an entry was set, or standard input is not a terminal,
  \<open>load_dotenv\<close> returns at once: nothing is asked and nothing is read. When no entry
  was set and standard input is a terminal, it prints a notice and asks whether to
  create entries; at end of input, or when the answer does not begin with \<open>y\<close> or
  \<open>Y\<close>, it returns \<open>0\<close> and the collector is not called. Only after such an answer
  does control pass to the collector: a negative count makes \<open>load_dotenv\<close> return
  \<open>-4\<close>, any other count makes it return \<open>0\<close> and is reported in a message
  (\<open>load_dotenv\<close> itself returns a status and no count).
\<close>

theorem load_dotenv_offer:
  assumes "read_file sys w = (st, vs, w1)"
  shows "w_stdin w1 = w_stdin w \<and> w_file w1 = w_file w
    \<and> (\<exists>ws. w_printed w1 = w_printed w @ ws \<and> (\<forall>m\<in>set ws. \<exists>k i. m = WarnLine k i))
    \<and> (st \<noteq> 0 \<or> vs \<noteq> 0 \<or> \<not> isatty_stdin sys \<longrightarrow> load_dotenv sys fn w = (st, w1))
    \<and> (st = 0 \<and> vs = 0 \<and> isatty_stdin sys \<longrightarrow>
         (case fgets 8 (w_stdin w) of
            None \<Rightarrow>
              load_dotenv sys fn w =
                (0, w1\<lparr>w_printed := w_printed w1 @
                        [if w_file w = None then NoFileFound fn else NoneSet fn, AskCreate fn]\<rparr>)
          | Some (answer, inp) \<Rightarrow>
              if take 1 answer = ''y'' \<or> take 1 answer = ''Y'' then
                (case interactive_create_entries sys
                        (w1\<lparr>w_printed := w_printed w1 @
                              [if w_file w = None then NoFileFound fn else NoneSet fn, AskCreate fn],
                            w_stdin := inp\<rparr>) of
                   (added, w3) \<Rightarrow>
                     load_dotenv sys fn w =
                       (if added < 0 then - 4 else 0,
                        w3\<lparr>w_printed := w_printed w3 @
                              [if added < 0 then ErrWrite fn
                               else if added = 0 then NoEntriesAdded else Added added fn]\<rparr>))
              else
                load_dotenv sys fn w =
                  (0, w1\<lparr>w_printed := w_printed w1 @
                          [if w_file w = None then NoFileFound fn else NoneSet fn, AskCreate fn],
                        w_stdin := inp\<rparr>)))"
proof -
  note fr = read_file_frame [OF assms]
  have 1: "load_dotenv sys fn w = (st, w1)" if "st \<noteq> 0 \<or> vs \<noteq> 0 \<or> \<not> isatty_stdin sys"
    using that fr by (auto simp: load_dotenv_def assms)
  have 2: "(case fgets 8 (w_stdin w) of
            None \<Rightarrow>
              load_dotenv sys fn w =
                (0, w1\<lparr>w_printed := w_printed w1 @
                        [if w_file w = None then NoFileFound fn else NoneSet fn, AskCreate fn]\<rparr>)
          | Some (answer, inp) \<Rightarrow>
              if take 1 answer = ''y'' \<or> take 1 answer = ''Y'' then
                (case interactive_create_entries sys
                        (w1\<lparr>w_printed := w_printed w1 @
                              [if w_file w = None then NoFileFound fn else NoneSet fn, AskCreate fn],
                            w_stdin := inp\<rparr>) of
                   (added, w3) \<Rightarrow>
                     load_dotenv sys fn w =
                       (if added < 0 then - 4 else 0,
                        w3\<lparr>w_printed := w_printed w3 @
                              [if added < 0 then ErrWrite fn
                               else if added = 0 then NoEntriesAdded else Added added fn]\<rparr>))
              else
                load_dotenv sys fn w =
                  (0, w1\<lparr>w_printed := w_printed w1 @
                          [if w_file w = None then NoFileFound fn else NoneSet fn, AskCreate fn],
                        w_stdin := inp\<rparr>))"
    if "st = 0 \<and> vs = 0 \<and> isatty_stdin sys"
  proof -
    from fr have s: "w_stdin w1 = w_stdin w" by simp
    show ?thesis
      using that
      by (simp add: load_dotenv_def assms Let_def s split: option.splits prod.splits)
  qed
  from fr 1 2 show ?thesis by blast
qed

theorem load_dotenv_offer_witness:
  "read_file sys_tty (world0 None (''y'' @ [CHR 0x0A] @ ''A=1'' @ [CHR 0x0A, CHR 0x0A])) =
     (0, 0, world0 None (''y'' @ [CHR 0x0A] @ ''A=1'' @ [CHR 0x0A, CHR 0x0A]))
   \<and> isatty_stdin sys_tty
   \<and> fst (load_dotenv sys_tty ''.env''
            (world0 None (''y'' @ [CHR 0x0A] @ ''A=1'' @ [CHR 0x0A, CHR 0x0A]))) = 0
   \<and> w_printed (snd (load_dotenv sys_tty ''.env''
            (world0 None (''y'' @ [CHR 0x0A] @ ''A=1'' @ [CHR 0x0A, CHR 0x0A])))) =
        [NoFileFound ''.env'', AskCreate ''.env'', EnterPairs, Prompt, Prompt, Added 1 ''.env'']"
proof -
  let ?w = "world0 None (''y'' @ [CHR 0x0A] @ ''A=1'' @ [CHR 0x0A, CHR 0x0A])"
  have h: "read_file sys_tty ?w = (0, 0, ?w)"
    by (simp add: read_file_def world0_def)
  have t: "isatty_stdin sys_tty"
    by (simp add: sys_tty_def)
  have f: "fgets 8 (w_stdin ?w) = Some (''y'' @ [CHR 0x0A], ''A=1'' @ [CHR 0x0A, CHR 0x0A])"
    by (simp add: fgets_def world0_def)
  have i: "fst (interactive_create_entries sys_tty
              (?w\<lparr>w_printed := w_printed ?w @ [NoFileFound ''.env'', AskCreate ''.env''],
                  w_stdin := ''A=1'' @ [CHR 0x0A, CHR 0x0A]\<rparr>)) = 1"
    "w_printed (snd (interactive_create_entries sys_tty
              (?w\<lparr>w_printed := w_printed ?w @ [NoFileFound ''.env'', AskCreate ''.env''],
                  w_stdin := ''A=1'' @ [CHR 0x0A, CHR 0x0A]\<rparr>))) =
       [NoFileFound ''.env'', AskCreate ''.env'', EnterPairs, Prompt, Prompt]"
    by code_simp+
  have n: "w_file ?w = None" by (simp add: world0_def)
  show ?thesis
    using load_dotenv_offer [OF h, of "''.env''"] h t i
    unfolding f n
    by (auto split: prod.splits)
qed

text \<open>
  C8, as the claim states it, fails: the file holds the two lines \<open>A=${B}/x\<close> and
  \<open>B=1\<close>, the store is empty and standard input is not a terminal. The first load
  sets \<open>A\<close> to \<open>/x\<close>, since \<open>B\<close> has no value yet; the second load, of the same file,
  sets \<open>A\<close> to \<open>1/x\<close>.
\<close>

theorem load_dotenv_twice_counterexample:
  "w_env (snd (load_dotenv sys_pipe ''.env''
     (world0 (Some (''A=${B}/x'' @ [CHR 0x0A] @ ''B=1'')) []))) = [''A=/x'', ''B=1'']
   \<and> w_env (snd (load_dotenv sys_pipe ''.env'' (snd (load_dotenv sys_pipe ''.env''
     (world0 (Some (''A=${B}/x'' @ [CHR 0x0A] @ ''B=1'')) []))))) = [''A=1/x'', ''B=1'']
   \<and> getenv [''A=/x'', ''B=1''] ''A'' = Some ''/x''
   \<and> getenv [''A=1/x'', ''B=1''] ''A'' = Some ''1/x''"
  by code_simp

text \<open>
  C8, amended. Take a file in which no reference looks ahead: every \<open>${NAME}\<close> in a
  value reads a variable that the file does not assign, or one that it has assigned on
  an earlier line. The variable that \<open>${NAME}\<close> reads is the one named by the text of
  \<open>NAME\<close> before its first \<open>=\<close> (all of \<open>NAME\<close> when it has none), since \<open>getenv\<close>
  matches \<open>NAME=\<close> with the text of the entries. The entries of a file are those of its
  lines, each taken up to its first NUL byte, that have a key. When no allocation and
  no \<open>setenv\<close> fails, and the question about creating entries does not arise (standard
  input is not a terminal, or the file has an entry), loading the file twice in a row
  leaves the environment exactly as loading it once does, whatever it held before: the
  entries of the file put in one after the other, each value expanded in the
  environment as it is at that line, so that for each key the last line wins.
\<close>

theorem load_dotenv_twice:
  assumes "\<forall>n. malloc_ok sys n" and "\<forall>k v. setenv_ok sys k v"
    and "w_file w = Some content" and "no_forward_refs content"
    and "\<not> isatty_stdin sys \<or> file_entries content \<noteq> []"
  shows "fst (load_dotenv sys fn w) = 0
    \<and> fst (load_dotenv sys fn (snd (load_dotenv sys fn w))) = 0
    \<and> w_env (snd (load_dotenv sys fn w)) = install (w_env w) (file_entries content)
    \<and> w_env (snd (load_dotenv sys fn (snd (load_dotenv sys fn w)))) =
        w_env (snd (load_dotenv sys fn w))"
proof -
  define es where "es = file_entries content"
  have once: "load_dotenv sys fn x = (0, x\<lparr>w_env := install (w_env x) es\<rparr>)"
    if "w_file x = Some content" for x
  proof -
    have "load_lines sys (file_lines content) 0 0 (w_env x) (w_printed x) =
            (0, 0 + int (length es), install (w_env x) es, w_printed x)"
      unfolding es_def file_entries_def
      by (rule load_lines_install) (use assms(1,2) in simp_all)
    then have rf: "read_file sys x = (0, int (length es), x\<lparr>w_env := install (w_env x) es\<rparr>)"
      using that by (simp add: read_file_def)
    have "int (length es) \<noteq> 0 \<or> \<not> isatty_stdin sys"
      using assms(5) unfolding es_def by auto
    then show ?thesis
      by (auto simp: load_dotenv_def rf)
  qed
  have idem: "install (install (w_env w) es) es = install (w_env w) es"
    unfolding es_def
    by (rule install_idem [OF assms(4) [unfolded no_forward_refs_def] file_entries_keys])
  have first: "load_dotenv sys fn w = (0, w\<lparr>w_env := install (w_env w) es\<rparr>)"
    by (rule once [OF assms(3)])
  have second: "load_dotenv sys fn (w\<lparr>w_env := install (w_env w) es\<rparr>) =
      (0, w\<lparr>w_env := install (w_env w) es\<rparr>\<lparr>w_env := install (install (w_env w) es) es\<rparr>)"
    using once [of "w\<lparr>w_env := install (w_env w) es\<rparr>"] assms(3) by simp
  show ?thesis
    unfolding first using second idem by (simp add: es_def)
qed

theorem load_dotenv_twice_witness:
  "no_forward_refs (''A=1'' @ [CHR 0x0A] @ ''B=${A}/${HOME}'' @ [CHR 0x0A] @ ''A=2'')
   \<and> w_env (snd (load_dotenv sys_pipe ''.env'' (snd (load_dotenv sys_pipe ''.env''
        (world0 (Some (''A=1'' @ [CHR 0x0A] @ ''B=${A}/${HOME}'' @ [CHR 0x0A] @ ''A=2'')) []))))) =
     w_env (snd (load_dotenv sys_pipe ''.env''
        (world0 (Some (''A=1'' @ [CHR 0x0A] @ ''B=${A}/${HOME}'' @ [CHR 0x0A] @ ''A=2'')) [])))"
proof -
  let ?c = "''A=1'' @ [CHR 0x0A] @ ''B=${A}/${HOME}'' @ [CHR 0x0A] @ ''A=2''"
  have h: "no_forward_refs ?c"
    by code_simp
  have g: "\<forall>n. malloc_ok sys_pipe n" "\<forall>k v. setenv_ok sys_pipe k v"
    "\<not> isatty_stdin sys_pipe \<or> file_entries ?c \<noteq> []"
    by (simp_all add: sys_pipe_def sys_tty_def grant_def)
  have f: "w_file (world0 (Some ?c) []) = Some ?c"
    by (simp add: world0_def)
  show ?thesis
    using h load_dotenv_twice [OF g(1) g(2) f h g(3), of "''.env''"] by simp
qed

end
